theory Spec2Isabelle
  imports Main "HOL-Library.Sublist"
begin

section \<open>Document model\<close>

text \<open>
  A Python \<open>str\<close> is modelled as a HOL \<open>string\<close>; a character is read as a code point
  below 256.  A run of the document library carries its text, the tri-state bold flag
  (\<open>None\<close>: not set on the run, inherited from the style; \<open>Some True\<close>; \<open>Some False\<close>) and
  its remaining character formatting, which is \<open>None\<close> on a run freshly made by
  \<open>paragraph.add_run\<close>.  A paragraph is the ordered list of its runs, the value of
  \<open>paragraph.runs\<close>.
\<close>

record 'f run =
  run_text :: string
  run_bold :: "bool option"
  run_other :: "'f option"

type_synonym 'f Paragraph = "'f run list"

text \<open>\<open>''.join(run.text for run in paragraph.runs)\<close>\<close>

definition full_text_of :: "'f Paragraph \<Rightarrow> string" where
  "full_text_of p = concat (map run_text p)"

text \<open>Python's slice \<open>s[a:b]\<close> for \<open>0 \<le> a\<close>, \<open>0 \<le> b\<close>.\<close>

definition slice :: "string \<Rightarrow> nat \<Rightarrow> nat \<Rightarrow> string" where
  "slice s a b = take (b - a) (drop a s)"

section \<open>The placeholder pattern\<close>

text \<open>
  \<open>PLACEHOLDER_RE = re.compile(r'(\{\{[^}]+\}\})')\<close>, anchored at the head of the given
  text: the two opening braces, then the longest stretch of characters other than the closing
  brace, which must be non-empty, then two closing braces.  Backtracking into the stretch
  cannot help, since the character after a shorter stretch is not a closing brace.  The result
  is the length of the match.
\<close>

definition PLACEHOLDER_RE :: "string \<Rightarrow> nat option" where
  "PLACEHOLDER_RE s =
     (if take 2 s = ''{{'' then
        (let body = takeWhile (\<lambda>c. c \<noteq> CHR ''}'') (drop 2 s) in
         if body \<noteq> [] \<and> take 2 (drop (2 + length body) s) = ''}}''
         then Some (length body + 4) else None)
      else None)"

text \<open>
  \<open>PLACEHOLDER_RE.finditer(full_text)\<close>: the spans \<open>(start, end)\<close> of the matches, scanning from
  position \<open>i\<close>; after a match the scan resumes at its end, otherwise one character further.
\<close>

function finditer_from :: "string \<Rightarrow> nat \<Rightarrow> (nat \<times> nat) list" where
  "finditer_from s i =
     (if length s \<le> i then []
      else (case PLACEHOLDER_RE (drop i s) of
              Some n \<Rightarrow> (i, i + n) # finditer_from s (i + n)
            | None \<Rightarrow> finditer_from s (Suc i)))"
  by pat_completeness auto
termination
  by (relation "measure (\<lambda>(s, i). length s - i)")
     (auto simp: PLACEHOLDER_RE_def Let_def split: if_splits)

declare finditer_from.simps [simp del]

definition finditer :: "string \<Rightarrow> (nat \<times> nat) list" where
  "finditer s = finditer_from s 0"

section \<open>Substitution in a paragraph\<close>

definition BOLD_KEYS :: "string set" where
  "BOLD_KEYS = {''{{base_amo}}'', ''{{cgst_c}}'', ''{{sgst_c}}'', ''{{tax_t}}'',
                ''{{sub_total_words}}'', ''{{tax_to_words}}''}"

definition BOLD_PARAGRAPH_KEYS :: "string list" where
  "BOLD_PARAGRAPH_KEYS = [''{{sub_total_words}}'', ''{{tax_to_words}}'', ''{{sub_total}}'']"

text \<open>\<open>any(k in full_text for k in BOLD_PARAGRAPH_KEYS)\<close>\<close>

definition paragraph_should_be_bold :: "string \<Rightarrow> bool" where
  "paragraph_should_be_bold full_text = list_ex (\<lambda>k. sublist k full_text) BOLD_PARAGRAPH_KEYS"

text \<open>\<open>replacements.get(placeholder, placeholder)\<close>\<close>

definition dict_get :: "(string \<rightharpoonup> string) \<Rightarrow> string \<Rightarrow> string" where
  "dict_get replacements placeholder =
     (case replacements placeholder of None \<Rightarrow> placeholder | Some v \<Rightarrow> v)"

text \<open>
  The body of the \<open>for m in PLACEHOLDER_RE.finditer(full_text)\<close> loop, over the remaining
  matches, threading \<open>segments\<close> and \<open>idx\<close>.
\<close>

fun segment_loop ::
  "(string \<rightharpoonup> string) \<Rightarrow> string \<Rightarrow> bool \<Rightarrow> (nat \<times> nat) list \<Rightarrow>
   (string \<times> bool) list \<Rightarrow> nat \<Rightarrow> (string \<times> bool) list \<times> nat" where
  "segment_loop replacements full_text pb [] segments idx = (segments, idx)"
| "segment_loop replacements full_text pb ((start, stop) # ms) segments idx =
     (let placeholder = slice full_text start stop;
          segments1 = (if start > idx then segments @ [(slice full_text idx start, pb)]
                       else segments);
          replacement_text = dict_get replacements placeholder;
          is_bold = (pb \<or> placeholder \<in> BOLD_KEYS)
      in segment_loop replacements full_text pb ms
           (segments1 @ [(replacement_text, is_bold)]) stop)"

text \<open>
  The segment list as it stands after the loop and after the text behind the last match has
  been appended.
\<close>

definition build_segments :: "(string \<rightharpoonup> string) \<Rightarrow> string \<Rightarrow> (string \<times> bool) list" where
  "build_segments replacements full_text =
     (let pb = paragraph_should_be_bold full_text;
          (segments, idx) = segment_loop replacements full_text pb (finditer full_text) [] 0
      in if idx < length full_text then segments @ [(drop idx full_text, pb)] else segments)"

text \<open>
  A mutation either returns, or a \<open>ValueError\<close> leaves it; both carry the state in which the
  paragraph is left.
\<close>

datatype 'a ending = Returns 'a | ValueError 'a

text \<open>
  The characters that the XML library accepts in the text of an element, among the code
  points below 256: tab, line feed, carriage return and everything from the space on.
\<close>

definition xml_compatible :: "char \<Rightarrow> bool" where
  "xml_compatible c \<longleftrightarrow> c \<in> {CHR 0x09, CHR 0x0A, CHR 0x0D} \<or> (32 :: nat) \<le> of_char c"

text \<open>
  \<open>run.text = text\<close> on a run without content, as the document library does it: the
  characters are taken one by one; a tab flushes the buffer and adds a tab element, a line
  feed or a carriage return flushes the buffer and adds a line break, any other character
  goes to the buffer, and the buffer is flushed at the end.  Flushing makes a text element
  of the buffered characters, which the XML library refuses with \<open>ValueError\<close> when one of
  them is not compatible; nothing of the refused buffer reaches the run.  \<open>content\<close> is what
  the run reads back: a tab element as a tab, a line break as a line feed.
\<close>

fun append_to_run_from_text :: "string \<Rightarrow> string \<Rightarrow> string \<Rightarrow> string ending" where
  "append_to_run_from_text content bfr [] =
     (if list_all xml_compatible bfr then Returns (content @ bfr) else ValueError content)"
| "append_to_run_from_text content bfr (c # cs) =
     (if c = CHR 0x09 then
        (if list_all xml_compatible bfr
         then append_to_run_from_text (content @ bfr @ [CHR 0x09]) [] cs
         else ValueError content)
      else if c = CHR 0x0D \<or> c = CHR 0x0A then
        (if list_all xml_compatible bfr
         then append_to_run_from_text (content @ bfr @ [CHR 0x0A]) [] cs
         else ValueError content)
      else append_to_run_from_text content (bfr @ [c]) cs)"

text \<open>
  \<open>r = paragraph.add_run(text)\<close> first appends a run without content and without any
  formatting of its own, then sets its text; when that raises, the run stays in the
  paragraph with what it holds by then.  \<open>r.bold = True\<close> is executed only under
  \<open>if bold_flag\<close>, and there is no \<open>else\<close> branch.  The loop skips the empty segments.
\<close>

fun emit_segments :: "'f Paragraph \<Rightarrow> (string \<times> bool) list \<Rightarrow> 'f Paragraph ending" where
  "emit_segments p [] = Returns p"
| "emit_segments p ((t, bold_flag) # segments) =
     (if t = [] then emit_segments p segments
      else (case append_to_run_from_text [] [] t of
              ValueError content \<Rightarrow>
                ValueError (p @ [\<lparr>run_text = content, run_bold = None, run_other = None\<rparr>])
            | Returns content \<Rightarrow>
                emit_segments
                  (p @ [\<lparr>run_text = content,
                         run_bold = (if bold_flag then Some True else None),
                         run_other = None\<rparr>])
                  segments))"

text \<open>
  The function itself.  Setting the text of an existing run to the empty string never
  raises.
\<close>

definition replace_placeholders_in_paragraph ::
  "'f Paragraph \<Rightarrow> (string \<rightharpoonup> string) \<Rightarrow> 'f Paragraph ending" where
  "replace_placeholders_in_paragraph p replacements =
     (let full_text = full_text_of p in
      if \<not> sublist ''{{'' full_text then Returns p
      else
        (let segments = build_segments replacements full_text;
             found = (finditer full_text \<noteq> [])
         in if \<not> found then Returns p
            else emit_segments (map (\<lambda>r. r\<lparr>run_text := []\<rparr>) p) segments))"

section \<open>Specification-level notions for the substitution\<close>

text \<open>
  A placeholder token in the words of the specification: an opening double brace, one or more
  characters none of which is a closing brace, a closing double brace.
\<close>

definition is_placeholder :: "string \<Rightarrow> bool" where
  "is_placeholder t \<longleftrightarrow>
     (\<exists>body. t = ''{{'' @ body @ ''}}'' \<and> body \<noteq> [] \<and> CHR ''}'' \<notin> set body)"

text \<open>
  The ordered list of literal and token pieces that a list of match spans cuts the text into,
  starting at position \<open>idx\<close>: the text before a match when there is any, the match, and
  after the last match the remaining text when there is any.
\<close>

datatype piece = Literal string | Token string

fun pieces_from :: "string \<Rightarrow> nat \<Rightarrow> (nat \<times> nat) list \<Rightarrow> piece list" where
  "pieces_from s idx [] = (if idx < length s then [Literal (drop idx s)] else [])"
| "pieces_from s idx ((a, b) # ms) =
     (if idx < a then [Literal (slice s idx a)] else []) @ Token (slice s a b) # pieces_from s b ms"

definition pieces :: "string \<Rightarrow> piece list" where
  "pieces s = pieces_from s 0 (finditer s)"

fun piece_text :: "piece \<Rightarrow> string" where
  "piece_text (Literal t) = t"
| "piece_text (Token k) = k"

fun piece_subst :: "(string \<rightharpoonup> string) \<Rightarrow> piece \<Rightarrow> string" where
  "piece_subst repl (Literal t) = t"
| "piece_subst repl (Token k) = dict_get repl k"

fun segment_of :: "(string \<rightharpoonup> string) \<Rightarrow> bool \<Rightarrow> piece \<Rightarrow> string \<times> bool" where
  "segment_of repl pb (Literal t) = (t, pb)"
| "segment_of repl pb (Token k) = (dict_get repl k, pb \<or> k \<in> BOLD_KEYS)"

text \<open>
  The text in which every placeholder match, found from left to right, is replaced by its
  mapped value when the token is a key of the map and stays as it is otherwise; every other
  character is copied.
\<close>

function spec_substitute :: "(string \<rightharpoonup> string) \<Rightarrow> string \<Rightarrow> string" where
  "spec_substitute repl [] = []"
| "spec_substitute repl (c # cs) =
     (case PLACEHOLDER_RE (c # cs) of
        Some n \<Rightarrow> dict_get repl (take n (c # cs)) @ spec_substitute repl (drop n (c # cs))
      | None \<Rightarrow> c # spec_substitute repl cs)"
  by pat_completeness auto
termination
  by (relation "measure (\<lambda>(repl, s). length s)") 
     (auto simp: PLACEHOLDER_RE_def Let_def split: if_splits)

fun tokens_of :: "piece list \<Rightarrow> string list" where
  "tokens_of [] = []"
| "tokens_of (Literal t # ps) = tokens_of ps"
| "tokens_of (Token k # ps) = k # tokens_of ps"

text \<open>
  What a text reads back as after it has been written to a run: every carriage return has
  become a line feed.  And the run that a segment gives when its text is accepted.
\<close>

definition cr_to_lf :: "string \<Rightarrow> string" where
  "cr_to_lf t = map (\<lambda>c. if c = CHR 0x0D then CHR 0x0A else c) t"

definition run_of_segment :: "string \<times> bool \<Rightarrow> 'f run" where
  "run_of_segment seg =
     \<lparr>run_text = cr_to_lf (fst seg),
      run_bold = (if snd seg then Some True else None), run_other = None\<rparr>"

section \<open>Trailing empty paragraphs\<close>

text \<open>
  A paragraph as the trimming reads it: \<open>paragraph.text\<close> and \<open>paragraph.runs\<close>.  The text of
  a paragraph holds the text of its runs and, depending on the version of the document
  library, the text of its hyperlinks, which are no runs; the two are therefore kept as
  separate fields, and nothing is assumed about how they relate.
\<close>

record 'f par =
  par_text :: string
  par_runs :: "'f run list"

text \<open>
  A block (the document body, a header, a footer) is the ordered list of its paragraphs and
  tables; the tables themselves play no part in the trimming and stay abstract.
  \<open>block.paragraphs\<close> is the list of the block's paragraphs in document order, without the
  tables.
\<close>

datatype ('f, 't) block_item = Para "'f par" | Tbl 't

type_synonym ('f, 't) block = "('f, 't) block_item list"

fun paragraphs :: "('f, 't) block \<Rightarrow> 'f par list" where
  "paragraphs [] = []"
| "paragraphs (Para p # items) = p # paragraphs items"
| "paragraphs (Tbl t # items) = paragraphs items"

fun tables :: "('f, 't) block \<Rightarrow> 't list" where
  "tables [] = []"
| "tables (Para p # items) = tables items"
| "tables (Tbl t # items) = t # tables items"

text \<open>
  The characters that \<open>str.strip()\<close> removes, among the code points below 256.
\<close>

definition isspace :: "char \<Rightarrow> bool" where
  "isspace c \<longleftrightarrow> c \<in> {CHR 0x09, CHR 0x0A, CHR 0x0B, CHR 0x0C, CHR 0x0D,
                         CHR 0x1C, CHR 0x1D, CHR 0x1E, CHR 0x1F, CHR 0x20, CHR 0x85, CHR 0xA0}"

definition strip :: "string \<Rightarrow> string" where
  "strip t = rev (dropWhile isspace (rev (dropWhile isspace t)))"

text \<open>A string is true in a condition when it is not empty.\<close>

definition is_paragraph_empty :: "'f par \<Rightarrow> bool" where
  "is_paragraph_empty paragraph =
     (if par_text paragraph \<noteq> [] \<and> strip (par_text paragraph) \<noteq> [] then False
      else if list_ex (\<lambda>r. run_text r \<noteq> [] \<and> strip (run_text r) \<noteq> []) (par_runs paragraph)
           then False
      else True)"

text \<open>
  \<open>parent.remove(p_el)\<close> for the last paragraph of the block: the block without that
  element.  A paragraph listed by \<open>block.paragraphs\<close> always has the block as its parent, so
  the \<open>else: break\<close> branch for a missing parent is never taken.
\<close>

fun remove_first_paragraph :: "('f, 't) block \<Rightarrow> ('f, 't) block" where
  "remove_first_paragraph [] = []"
| "remove_first_paragraph (Para p # items) = items"
| "remove_first_paragraph (Tbl t # items) = Tbl t # remove_first_paragraph items"

definition remove_last_paragraph :: "('f, 't) block \<Rightarrow> ('f, 't) block" where
  "remove_last_paragraph blk = rev (remove_first_paragraph (rev blk))"

function remove_trailing_empty_paragraphs_from_block :: "('f, 't) block \<Rightarrow> ('f, 't) block" where
  "remove_trailing_empty_paragraphs_from_block blk =
     (if paragraphs blk = [] then blk
      else if is_paragraph_empty (last (paragraphs blk))
           then remove_trailing_empty_paragraphs_from_block (remove_last_paragraph blk)
           else blk)"
  by pat_completeness auto
termination
proof (relation "measure (\<lambda>blk. length (paragraphs blk))")
  show "wf (measure (\<lambda>blk :: ('f, 't) block. length (paragraphs blk)))" by simp
next
  fix blk :: "('f, 't) block"
  assume ne: "paragraphs blk \<noteq> []"
  have app: "paragraphs (xs @ ys) = paragraphs xs @ paragraphs ys" for xs ys :: "('f, 't) block"
    by (induction xs rule: paragraphs.induct) simp_all
  have rv: "paragraphs (rev xs) = rev (paragraphs xs)" for xs :: "('f, 't) block"
    by (induction xs rule: paragraphs.induct) (simp_all add: app)
  have rm: "paragraphs (remove_first_paragraph xs) = tl (paragraphs xs)" for xs :: "('f, 't) block"
    by (induction xs rule: paragraphs.induct) simp_all
  have "length (paragraphs (remove_last_paragraph blk)) = length (paragraphs blk) - 1"
    by (simp add: remove_last_paragraph_def rv rm)
  with ne show "(remove_last_paragraph blk, blk) \<in> measure (\<lambda>blk. length (paragraphs blk))"
    by (cases "paragraphs blk") simp_all
qed

declare remove_trailing_empty_paragraphs_from_block.simps [simp del]

section \<open>Notions for the statement of the trimming\<close>

text \<open>
  The block from which a paragraph is left out exactly when it is empty and every paragraph
  after it in the block is empty too; tables, wherever they stand, are kept and do not
  count.
\<close>

fun without_trailing_empty :: "('f, 't) block \<Rightarrow> ('f, 't) block" where
  "without_trailing_empty [] = []"
| "without_trailing_empty (Tbl t # items) = Tbl t # without_trailing_empty items"
| "without_trailing_empty (Para p # items) =
     (if list_all is_paragraph_empty (p # paragraphs items) then without_trailing_empty items
      else Para p # without_trailing_empty items)"

text \<open>
  The same on the block read from its end, as the proofs use it: tables are stepped over
  and kept, empty paragraphs are dropped, up to the first paragraph that is not empty.
\<close>

fun trim_leading :: "('f, 't) block \<Rightarrow> ('f, 't) block" where
  "trim_leading [] = []"
| "trim_leading (Tbl t # items) = Tbl t # trim_leading items"
| "trim_leading (Para p # items) =
     (if is_paragraph_empty p then trim_leading items else Para p # items)"

section \<open>Invoice numbering\<close>

text \<open>
  The regular expression class \<open>\d\<close>, among the code points below 256, and the value of a
  decimal digit.
\<close>

definition is_decimal :: "char \<Rightarrow> bool" where
  "is_decimal c \<longleftrightarrow> c \<in> set ''0123456789''"

definition digit_value :: "char \<Rightarrow> nat" where
  "digit_value c = of_char c - 48"

text \<open>
  \<open>int(m.group(1))\<close>: the number that a non-empty string of decimal digits denotes;
  \<open>None\<close> stands for the exception that the \<open>try\<close> block swallows.  A file name is too
  short to reach the interpreter's limit on the number of digits, so a string of digits
  always converts.  Suffixes are never negative, so they are natural numbers.
\<close>

definition py_int :: "string \<Rightarrow> nat option" where
  "py_int ds =
     (if ds \<noteq> [] \<and> list_all is_decimal ds
      then Some (foldl (\<lambda>a c. 10 * a + digit_value c) 0 ds) else None)"

text \<open>
  \<open>pattern.search(name)\<close> for the pattern \<open>GB-<month_year>-(\d+)\<close>, where \<open>lit\<close> is the
  literal part before the group: the first position from the left where the literal is
  followed by at least one digit; the result is group 1, the longest stretch of digits there.
\<close>

fun pattern_search :: "string \<Rightarrow> string \<Rightarrow> string option" where
  "pattern_search lit [] = None"
| "pattern_search lit (c # cs) =
     (let ds = takeWhile is_decimal (drop (length lit) (c # cs)) in
      if prefix lit (c # cs) \<and> ds \<noteq> [] then Some ds else pattern_search lit cs)"

text \<open>
  \<open>Path(OUTPUT_DIR).glob("*.pdf")\<close> over the names in the output directory, compared with
  regard to case.
\<close>

definition glob_pdf :: "string list \<Rightarrow> string list" where
  "glob_pdf names = filter (suffix ''.pdf'') names"

text \<open>
  \<open>path.stem\<close>: the name up to its last dot, or the whole name when it has no dot or when
  the last dot is its first or its last character.
\<close>

definition stem :: "string \<Rightarrow> string" where
  "stem name =
     (let from_last_dot = dropWhile (\<lambda>c. c \<noteq> CHR ''.'') (rev name) in
      if from_last_dot = [] then name
      else (let i = length from_last_dot - 1 in
            if 0 < i \<and> i < length name - 1 then take i name else name))"

text \<open>The format \<open>f"{n:02d}"\<close>: the decimal text of \<open>n\<close>, padded with zeros to two characters.\<close>

definition digit_char :: "nat \<Rightarrow> char" where
  "digit_char d = char_of (48 + d)"

function decimal :: "nat \<Rightarrow> string" where
  "decimal n = (if n < 10 then [digit_char n] else decimal (n div 10) @ [digit_char (n mod 10)])"
  by pat_completeness auto
termination
  by (relation "measure id") auto

declare decimal.simps [simp del]

definition format_02d :: "nat \<Rightarrow> string" where
  "format_02d n = replicate (2 - length (decimal n)) CHR ''0'' @ decimal n"

text \<open>The literal part of \<open>rf"GB-{re.escape(month_year)}-(\d+)"\<close>.\<close>

definition GB_prefix :: "string \<Rightarrow> string" where
  "GB_prefix month_year = ''GB-'' @ month_year @ ''-''"

text \<open>The body of the loop over the files, threading \<open>max_suffix\<close>.\<close>

definition scan_step :: "string \<Rightarrow> nat \<Rightarrow> string \<Rightarrow> nat" where
  "scan_step pattern max_suffix path =
     (case pattern_search pattern (stem path) of
        None \<Rightarrow> max_suffix
      | Some g \<Rightarrow>
          (case py_int g of
             None \<Rightarrow> max_suffix
           | Some val \<Rightarrow> if val > max_suffix then val else max_suffix))"

definition get_next_suffix_for_month :: "string \<Rightarrow> string list \<Rightarrow> string" where
  "get_next_suffix_for_month month_year names =
     (let pattern = GB_prefix month_year;
          max_suffix = foldl (scan_step pattern) 0 (glob_pdf names)
      in format_02d (max_suffix + 1))"

section \<open>Specification-level notions for the numbering\<close>

text \<open>
  A token at position \<open>i\<close> of a name: the literal \<open>GB-<MMYY>-\<close> followed by the digits \<open>ds\<close>, at
  least one, and by no further digit.  The suffix found in a file name is the number denoted
  by the digits of the leftmost token of its stem.
\<close>

definition occurs_at :: "string \<Rightarrow> string \<Rightarrow> nat \<Rightarrow> string \<Rightarrow> bool" where
  "occurs_at lit s i ds \<longleftrightarrow>
     (\<exists>post. i \<le> length s \<and> drop i s = lit @ ds @ post \<and> ds \<noteq> [] \<and>
        (\<forall>c \<in> set ds. is_decimal c) \<and> (post = [] \<or> \<not> is_decimal (hd post)))"

definition token_at :: "string \<Rightarrow> string \<Rightarrow> nat \<Rightarrow> string \<Rightarrow> bool" where
  "token_at month s i ds = occurs_at (GB_prefix month) s i ds"

definition suffix_found :: "string \<Rightarrow> string \<Rightarrow> nat \<Rightarrow> bool" where
  "suffix_found month name v \<longleftrightarrow>
     (\<exists>i ds. token_at month (stem name) i ds \<and>
        (\<forall>j < i. \<forall>ds'. \<not> token_at month (stem name) j ds') \<and> py_int ds = Some v)"

text \<open>The suffix that one loop step reads from a path, if any.\<close>

definition found_value :: "string \<Rightarrow> string \<Rightarrow> nat option" where
  "found_value pattern path =
     (case pattern_search pattern (stem path) of None \<Rightarrow> None | Some g \<Rightarrow> py_int g)"

section \<open>Request validation\<close>

text \<open>
  The fields of the posted form that \<open>generate_invoice\<close> reads; \<open>None\<close> is a missing field.
\<close>

record form =
  y_value :: "string option"
  date :: "string option"
  invoice_suffix :: "string option"
  payment_type :: "string option"
  hsn_code :: "string option"

text \<open>
  What the first part of \<open>generate_invoice\<close> comes to: the view returns a status and a body;
  or an exception leaves the view, which the framework answers with status 500; or the
  function goes on to load the template, with the values computed so far.
\<close>

datatype ('n, 'd, 'w) outcome =
    Returned nat string
  | Raised string
  | Load_template 'n 'd string 'w

text \<open>\<open>str.isdigit()\<close>, among the code points below 256.\<close>

definition isdigit :: "string \<Rightarrow> bool" where
  "isdigit s \<longleftrightarrow> s \<noteq> [] \<and>
     list_all (\<lambda>c. c \<in> set ''0123456789'' \<or> c \<in> {CHR 0xB2, CHR 0xB3, CHR 0xB9}) s"

text \<open>
  \<open>generate_invoice\<close> up to the loading of the template.  The library calls are parameters:
  \<open>float_of\<close> is \<open>float(...)\<close>, \<open>ceil_markup\<close> is \<open>math.ceil(y_value * 1.02)\<close>, \<open>strptime\<close> is
  \<open>datetime.strptime(..., "%Y-%m-%d")\<close>, and \<open>amounts_in_words\<close> is the computation of
  the derived amounts with the two calls of \<open>number_to_words_indian\<close>, each \<open>None\<close> where
  the call raises; \<open>today\<close> is the default date.  Only the conversion of the amount stands
  inside a \<open>try\<close> block.
\<close>

definition generate_invoice ::
  "(string \<Rightarrow> 'y option) \<Rightarrow> ('y \<Rightarrow> 'n option) \<Rightarrow> (string \<Rightarrow> 'd option) \<Rightarrow> string \<Rightarrow>
   ('n \<Rightarrow> 'w option) \<Rightarrow> form \<Rightarrow> ('n, 'd, 'w) outcome" where
  "generate_invoice float_of ceil_markup strptime today amounts_in_words request_form =
     (case (case y_value request_form of None \<Rightarrow> None | Some s \<Rightarrow> float_of s) of
        None \<Rightarrow> Returned 400 ''Invalid y_value''
      | Some y \<Rightarrow>
          (case ceil_markup y of
             None \<Rightarrow> Raised ''OverflowError or ValueError''
           | Some sub_total \<Rightarrow>
               (let date_value = (case date request_form of None \<Rightarrow> today | Some d \<Rightarrow> d);
                    suffix_value = strip (case invoice_suffix request_form of
                                            None \<Rightarrow> [] | Some s \<Rightarrow> s)
                in if \<not> isdigit suffix_value
                   then Returned 400 ''Invoice suffix must be numeric''
                   else (case strptime date_value of
                           None \<Rightarrow> Raised ''ValueError''
                         | Some d \<Rightarrow>
                             (case amounts_in_words sub_total of
                                None \<Rightarrow> Raised ''OverflowError''
                              | Some words \<Rightarrow>
                                  Load_template sub_total d suffix_value words)))))"

text \<open>
  The view \<open>next_suffix\<close>, which parses the same date inside a \<open>try\<close> block; the result is
  the status and the payload.
\<close>

definition next_suffix ::
  "(string \<Rightarrow> 'd option) \<Rightarrow> ('d \<Rightarrow> string) \<Rightarrow> string list \<Rightarrow> string option \<Rightarrow> nat \<times> string" where
  "next_suffix strptime strftime_mmyy names date_arg =
     (case date_arg of
        None \<Rightarrow> (400, ''date is required'')
      | Some date_value \<Rightarrow>
          if date_value = [] then (400, ''date is required'')
          else (case strptime date_value of
                  None \<Rightarrow> (400, ''invalid date'')
                | Some d \<Rightarrow> (200, get_next_suffix_for_month (strftime_mmyy d) names)))"

section \<open>Properties of the pattern and of the scan\<close>

lemma PLACEHOLDER_RE_pos: "PLACEHOLDER_RE s = Some n \<Longrightarrow> 0 < n"
  by (auto simp: PLACEHOLDER_RE_def Let_def split: if_splits)

lemma take2_eq:
  assumes "take 2 s = [a, b]"
  shows "s = a # b # drop 2 s"
  using assms by (cases s; cases "tl s") auto

lemma PLACEHOLDER_RE_decomp:
  assumes "PLACEHOLDER_RE s = Some n"
  shows "\<exists>body. s = ''{{'' @ body @ ''}}'' @ drop n s \<and> body \<noteq> [] \<and> CHR ''}'' \<notin> set body
           \<and> n = length body + 4"
proof -
  define rest where "rest = drop 2 s"
  define body where "body = takeWhile (\<lambda>c. c \<noteq> CHR ''}'') rest"
  define tl2 where "tl2 = drop (length body) rest"
  from assms have h: "take 2 s = ''{{''" "body \<noteq> []"
    "take 2 (drop (2 + length body) s) = ''}}''" "n = length body + 4"
    by (auto simp: PLACEHOLDER_RE_def Let_def body_def rest_def split: if_splits)
  have a: "s = ''{{'' @ rest" using take2_eq[OF h(1)] by (simp add: rest_def)
  have b: "rest = body @ tl2"
    unfolding body_def tl2_def by (metis append_take_drop_id takeWhile_eq_take)
  have "drop (2 + length body) s = tl2" by (simp add: tl2_def rest_def add.commute)
  with h(3) have "take 2 tl2 = ''}}''" by simp
  from take2_eq[OF this] have c: "tl2 = ''}}'' @ drop 2 tl2" by simp
  have "n = 2 + length body + 2" using h(4) by simp
  then have "drop n s = drop 2 tl2"
    unfolding tl2_def rest_def by (simp only: drop_drop add.commute add.assoc)
  with c have c': "tl2 = ''}}'' @ drop n s" by simp
  have d: "CHR ''}'' \<notin> set body"
    unfolding body_def by (auto dest: set_takeWhileD)
  from a b c' have "s = ''{{'' @ body @ ''}}'' @ drop n s" by simp
  with h d show ?thesis by blast
qed

lemma PLACEHOLDER_RE_intro:
  assumes "body \<noteq> []" "CHR ''}'' \<notin> set body"
  shows "PLACEHOLDER_RE (''{{'' @ body @ ''}}'' @ rest) = Some (length body + 4)"
proof -
  have "takeWhile (\<lambda>c. c \<noteq> CHR ''}'') (body @ ''}}'' @ rest) = body"
    using assms(2) by (induction body) auto
  then show ?thesis using assms(1) by (simp add: PLACEHOLDER_RE_def Let_def)
qed

lemma PLACEHOLDER_RE_iff:
  "PLACEHOLDER_RE s = Some n \<longleftrightarrow> n \<le> length s \<and> is_placeholder (take n s)"
proof
  assume a: "PLACEHOLDER_RE s = Some n"
  from PLACEHOLDER_RE_decomp[OF a] obtain body where
    b: "s = ''{{'' @ body @ ''}}'' @ drop n s" "body \<noteq> []" "CHR ''}'' \<notin> set body"
       "n = length body + 4" by blast
  have "length s = length body + 4 + length (drop n s)"
    by (subst b(1)) simp
  then have le: "n \<le> length s" using b(4) by simp
  have len: "length (''{{'' @ body @ ''}}'') = n" using b(4) by simp
  have "s = (''{{'' @ body @ ''}}'') @ drop n s" using b(1) by simp
  then have "take n s = ''{{'' @ body @ ''}}''" using len by (metis append_eq_conv_conj)
  then have "is_placeholder (take n s)" unfolding is_placeholder_def using b(2,3) by blast
  with le show "n \<le> length s \<and> is_placeholder (take n s)" by simp
next
  assume a: "n \<le> length s \<and> is_placeholder (take n s)"
  then obtain body where b: "take n s = ''{{'' @ body @ ''}}''" "body \<noteq> []" "CHR ''}'' \<notin> set body"
    unfolding is_placeholder_def by blast
  have "s = (''{{'' @ body @ ''}}'') @ drop n s" using b(1) append_take_drop_id[of n s] by metis
  then have s: "s = ''{{'' @ body @ ''}}'' @ drop n s" by simp
  have "length (take n s) = length body + 4" unfolding b(1) by simp
  then have "n = length body + 4" using a by simp
  then show "PLACEHOLDER_RE s = Some n"
    using PLACEHOLDER_RE_intro[OF b(2,3), of "drop n s"] s by metis
qed


lemma PLACEHOLDER_RE_drop_le:
  assumes "PLACEHOLDER_RE (drop i s) = Some n"
  shows "i + n \<le> length s"
proof -
  from assms have "n \<le> length (drop i s)" "0 < n"
    using PLACEHOLDER_RE_iff PLACEHOLDER_RE_pos by blast+
  then show ?thesis by simp
qed

lemma finditer_from_spans:
  "(a, b) \<in> set (finditer_from s i) \<Longrightarrow>
     i \<le> a \<and> a < b \<and> b \<le> length s \<and> PLACEHOLDER_RE (drop a s) = Some (b - a)"
proof (induction s i rule: finditer_from.induct)
  case (1 s i)
  show ?case
  proof (cases "length s \<le> i")
    case True
    with "1.prems" show ?thesis by (simp add: finditer_from.simps)
  next
    case False
    show ?thesis
    proof (cases "PLACEHOLDER_RE (drop i s)")
      case None
      with False "1.prems" have "(a, b) \<in> set (finditer_from s (Suc i))"
        by (simp add: finditer_from.simps[of s i])
      from "1.IH"(1)[OF False None this] show ?thesis by simp
    next
      case (Some n)
      with False "1.prems" have m: "(a, b) = (i, i + n) \<or> (a, b) \<in> set (finditer_from s (i + n))"
        by (simp add: finditer_from.simps[of s i])
      have n: "0 < n" "n \<le> length (drop i s)"
        using Some PLACEHOLDER_RE_pos PLACEHOLDER_RE_iff by blast+
      from m show ?thesis
      proof
        assume "(a, b) = (i, i + n)"
        with n Some False show ?thesis by auto
      next
        assume "(a, b) \<in> set (finditer_from s (i + n))"
        from "1.IH"(2)[OF False Some this] show ?thesis by simp
      qed
    qed
  qed
qed

lemma finditer_from_complete:
  "i \<le> j \<Longrightarrow> PLACEHOLDER_RE (drop j s) = Some n \<Longrightarrow>
     \<exists>(a, b) \<in> set (finditer_from s i). (a = j \<and> b = j + n) \<or> (a < j \<and> j < b)"
proof (induction s i rule: finditer_from.induct)
  case (1 s i)
  have jl: "j < length s"
    using "1.prems"(2) by (cases "j < length s") (auto simp: PLACEHOLDER_RE_def)
  then have False: "\<not> length s \<le> i" using "1.prems"(1) by simp
  show ?case
  proof (cases "PLACEHOLDER_RE (drop i s)")
    case None
    with "1.prems" have "i \<noteq> j" by auto
    with "1.prems" have "Suc i \<le> j" by simp
    from "1.IH"(1)[OF False None this "1.prems"(2)] show ?thesis
      using None False by (simp add: finditer_from.simps[of s i])
  next
    case (Some m)
    have fi: "finditer_from s i = (i, i + m) # finditer_from s (i + m)"
      using Some False by (simp add: finditer_from.simps[of s i])
    show ?thesis
    proof (cases "i + m \<le> j")
      case True
      from "1.IH"(2)[OF False Some True "1.prems"(2)] show ?thesis
        unfolding fi by auto
    next
      case F: False
      show ?thesis
      proof (cases "i = j")
        case True
        with Some "1.prems"(2) show ?thesis unfolding fi by simp
      next
        case False
        with F "1.prems"(1) show ?thesis unfolding fi by simp
      qed
    qed
  qed
qed

lemma finditer_from_sorted:
  "sorted_wrt (\<lambda>(a, b) (c, d). b \<le> c) (finditer_from s i)"
proof (induction s i rule: finditer_from.induct)
  case (1 s i)
  show ?case
  proof (cases "length s \<le> i")
    case True
    then show ?thesis by (simp add: finditer_from.simps)
  next
    case False
    show ?thesis
    proof (cases "PLACEHOLDER_RE (drop i s)")
      case None
      with False "1.IH"(1) show ?thesis by (simp add: finditer_from.simps[of s i])
    next
      case (Some n)
      have "\<forall>(c, d) \<in> set (finditer_from s (i + n)). i + n \<le> c"
        using finditer_from_spans by blast
      with False Some "1.IH"(2) show ?thesis
        by (auto simp add: finditer_from.simps[of s i])
    qed
  qed
qed


lemma slice_drop: "a \<le> b \<Longrightarrow> b \<le> length s \<Longrightarrow> slice s a b @ drop b s = drop a s"
  unfolding slice_def by (metis append_take_drop_id drop_drop le_add_diff_inverse2)

lemma segment_loop_pieces:
  "(case segment_loop repl s pb ms segs idx of
      (segs', idx') \<Rightarrow> if idx' < length s then segs' @ [(drop idx' s, pb)] else segs')
   = segs @ map (segment_of repl pb) (pieces_from s idx ms)"
  by (induction ms arbitrary: segs idx) (auto simp: Let_def)

lemma build_segments_pieces:
  "build_segments repl s = map (segment_of repl (paragraph_should_be_bold s)) (pieces s)"
  using segment_loop_pieces[where repl = repl and s = s and pb = "paragraph_should_be_bold s"
          and ms = "finditer s" and segs = "[]" and idx = 0]
  by (simp add: build_segments_def pieces_def Let_def split: prod.splits)

lemma pieces_from_text:
  "idx \<le> i \<Longrightarrow> i \<le> length s \<Longrightarrow>
     concat (map piece_text (pieces_from s idx (finditer_from s i))) = drop idx s"
proof (induction s i arbitrary: idx rule: finditer_from.induct)
  case (1 s i)
  show ?case
  proof (cases "length s \<le> i")
    case True
    then show ?thesis by (simp add: finditer_from.simps)
  next
    case False
    show ?thesis
    proof (cases "PLACEHOLDER_RE (drop i s)")
      case None
      have "concat (map piece_text (pieces_from s idx (finditer_from s (Suc i)))) = drop idx s"
        using "1.IH"(1)[OF False None, of idx] "1.prems" False by simp
      with None False show ?thesis by (simp add: finditer_from.simps[of s i])
    next
      case (Some n)
      have n: "i + n \<le> length s" using Some by (rule PLACEHOLDER_RE_drop_le)
      have ih: "concat (map piece_text (pieces_from s (i + n) (finditer_from s (i + n)))) = drop (i + n) s"
        using "1.IH"(2)[OF False Some, of "i + n"] n by simp
      have fi: "finditer_from s i = (i, i + n) # finditer_from s (i + n)"
        using Some False by (simp add: finditer_from.simps[of s i])
      have a: "slice s i (i + n) @ drop (i + n) s = drop i s" using n by (simp add: slice_drop)
      have b: "slice s idx i @ drop i s = drop idx s" using "1.prems" by (simp add: slice_drop)
      show ?thesis
      proof (cases "idx < i")
        case True
        then show ?thesis unfolding fi using ih a b by simp
      next
        case False
        with "1.prems" have "idx = i" by simp
        then show ?thesis unfolding fi using ih a by simp
      qed
    qed
  qed
qed

lemma pieces_text: "concat (map piece_text (pieces s)) = s"
  using pieces_from_text[of 0 0 s] by (simp add: pieces_def finditer_def)

lemma spec_substitute_unfold:
  "s \<noteq> [] \<Longrightarrow> spec_substitute repl s =
     (case PLACEHOLDER_RE s of
        Some n \<Rightarrow> dict_get repl (take n s) @ spec_substitute repl (drop n s)
      | None \<Rightarrow> hd s # spec_substitute repl (tl s))"
  by (cases s) (simp_all split: option.split)

lemma pieces_from_subst:
  "idx \<le> i \<Longrightarrow> i \<le> length s \<Longrightarrow>
     concat (map (piece_subst repl) (pieces_from s idx (finditer_from s i)))
       = slice s idx i @ spec_substitute repl (drop i s)"
proof (induction s i arbitrary: idx rule: finditer_from.induct)
  case (1 s i)
  show ?case
  proof (cases "length s \<le> i")
    case True
    with "1.prems" have "i = length s" by simp
    then show ?thesis using "1.prems" by (simp add: finditer_from.simps slice_def)
  next
    case False
    then have dr: "drop i s = s ! i # drop (Suc i) s" by (simp add: Cons_nth_drop_Suc)
    show ?thesis
    proof (cases "PLACEHOLDER_RE (drop i s)")
      case None
      have ih: "concat (map (piece_subst repl) (pieces_from s idx (finditer_from s (Suc i))))
                  = slice s idx (Suc i) @ spec_substitute repl (drop (Suc i) s)"
        using "1.IH"(1)[OF False None, of idx] "1.prems" False by simp
      have sl: "slice s idx (Suc i) = slice s idx i @ [s ! i]"
        using "1.prems" False unfolding slice_def
        by (simp add: Suc_diff_le take_Suc_conv_app_nth)
      have sp: "spec_substitute repl (drop i s) = s ! i # spec_substitute repl (drop (Suc i) s)"
        using None False
        by (subst spec_substitute_unfold) (simp_all add: hd_drop_conv_nth tl_drop drop_Suc)
      show ?thesis using None False ih sl sp by (simp add: finditer_from.simps[of s i])
    next
      case (Some n)
      have n: "i + n \<le> length s" using Some by (rule PLACEHOLDER_RE_drop_le)
      have ih: "concat (map (piece_subst repl) (pieces_from s (i + n) (finditer_from s (i + n))))
                  = spec_substitute repl (drop (i + n) s)"
        using "1.IH"(2)[OF False Some, of "i + n"] n by (simp add: slice_def)
      have fi: "finditer_from s i = (i, i + n) # finditer_from s (i + n)"
        using Some False by (simp add: finditer_from.simps[of s i])
      have sp: "spec_substitute repl (drop i s)
                  = dict_get repl (slice s i (i + n)) @ spec_substitute repl (drop (i + n) s)"
        using Some False
        by (subst spec_substitute_unfold) (simp_all add: slice_def add.commute)
      show ?thesis
      proof (cases "idx < i")
        case True
        then show ?thesis unfolding fi using ih sp by simp
      next
        case False
        with "1.prems" have "idx = i" by simp
        then show ?thesis unfolding fi using ih sp by (simp add: slice_def)
      qed
    qed
  qed
qed

lemma pieces_subst: "concat (map (piece_subst repl) (pieces s)) = spec_substitute repl s"
  using pieces_from_subst[of 0 0 s repl] by (simp add: pieces_def finditer_def slice_def)

lemma fst_segment_of: "fst (segment_of repl pb pc) = piece_subst repl pc"
  by (cases pc) auto


lemma tokens_of_pieces_from:
  "tokens_of (pieces_from s idx ms) = map (\<lambda>(a, b). slice s a b) ms"
  by (induction ms arbitrary: idx) auto

lemma pieces_from_literal_nonempty:
  "\<forall>(a, b) \<in> set ms. a < length s \<Longrightarrow> Literal [] \<notin> set (pieces_from s idx ms)"
  by (induction ms arbitrary: idx) (auto simp: slice_def)

lemma pieces_literal_nonempty: "Literal [] \<notin> set (pieces s)"
  unfolding pieces_def finditer_def
  by (rule pieces_from_literal_nonempty) (use finditer_from_spans in fastforce)

lemma map_fst_segment_of:
  "map (fst \<circ> segment_of repl pb) ps = map (piece_subst repl) ps"
  by (induction ps) (simp_all add: fst_segment_of)

lemma finditer_nonempty_iff:
  "finditer s \<noteq> [] \<longleftrightarrow> (\<exists>pre tok post. s = pre @ tok @ post \<and> is_placeholder tok)"
proof
  assume "finditer s \<noteq> []"
  then obtain a b where ab: "(a, b) \<in> set (finditer_from s 0)"
    unfolding finditer_def by (cases "finditer_from s 0") auto
  from finditer_from_spans[OF ab] have "PLACEHOLDER_RE (drop a s) = Some (b - a)" by simp
  then have "is_placeholder (take (b - a) (drop a s))" using PLACEHOLDER_RE_iff by blast
  moreover have "s = take a s @ take (b - a) (drop a s) @ drop (b - a) (drop a s)"
    by (simp only: append_take_drop_id)
  ultimately show "\<exists>pre tok post. s = pre @ tok @ post \<and> is_placeholder tok" by blast
next
  assume "\<exists>pre tok post. s = pre @ tok @ post \<and> is_placeholder tok"
  then obtain pre tok post where d: "s = pre @ tok @ post" "is_placeholder tok" by blast
  from d(2) obtain body where b: "tok = ''{{'' @ body @ ''}}''" "body \<noteq> []" "CHR ''}'' \<notin> set body"
    unfolding is_placeholder_def by blast
  have "drop (length pre) s = ''{{'' @ body @ ''}}'' @ post" using d(1) b(1) by simp
  then have "PLACEHOLDER_RE (drop (length pre) s) = Some (length body + 4)"
    using PLACEHOLDER_RE_intro[OF b(2,3), of post] by simp
  from finditer_from_complete[OF _ this, of 0] show "finditer s \<noteq> []"
    unfolding finditer_def by auto
qed

lemma no_braces_no_match:
  assumes "\<not> sublist ''{{'' s"
  shows "finditer s = []"
proof (rule ccontr)
  assume "finditer s \<noteq> []"
  then obtain pre tok post where d: "s = pre @ tok @ post" "is_placeholder tok"
    using finditer_nonempty_iff by blast
  then obtain body where "s = pre @ ''{{'' @ (body @ ''}}'' @ post)"
    unfolding is_placeholder_def by auto
  then have "sublist ''{{'' s" unfolding sublist_def by blast
  with assms show False by simp
qed

lemma paragraph_should_be_bold_iff:
  "paragraph_should_be_bold s \<longleftrightarrow>
     (\<exists>k \<in> {''{{sub_total_words}}'', ''{{tax_to_words}}'', ''{{sub_total}}''}. sublist k s)"
  by (simp add: paragraph_should_be_bold_def BOLD_PARAGRAPH_KEYS_def)

lemma is_placeholder_bold_paragraph_keys:
  "is_placeholder ''{{sub_total_words}}''" "is_placeholder ''{{tax_to_words}}''"
  "is_placeholder ''{{sub_total}}''"
proof -
  have "''{{sub_total_words}}'' = ''{{'' @ ''sub_total_words'' @ ''}}''" by simp
  moreover have "''{{tax_to_words}}'' = ''{{'' @ ''tax_to_words'' @ ''}}''" by simp
  moreover have "''{{sub_total}}'' = ''{{'' @ ''sub_total'' @ ''}}''" by simp
  moreover have "''sub_total_words'' \<noteq> [] \<and> CHR ''}'' \<notin> set ''sub_total_words''" by simp
  moreover have "''tax_to_words'' \<noteq> [] \<and> CHR ''}'' \<notin> set ''tax_to_words''" by simp
  moreover have "''sub_total'' \<noteq> [] \<and> CHR ''}'' \<notin> set ''sub_total''" by simp
  ultimately show "is_placeholder ''{{sub_total_words}}''" "is_placeholder ''{{tax_to_words}}''"
    "is_placeholder ''{{sub_total}}''"
    unfolding is_placeholder_def by (intro exI conjI; assumption | simp)+
qed

lemma sublist_placeholder_found:
  assumes "sublist k s" "is_placeholder k"
  shows "finditer s \<noteq> []"
proof -
  from assms(1) obtain pre post where "s = pre @ k @ post" unfolding sublist_def by blast
  with assms(2) show ?thesis unfolding finditer_nonempty_iff by blast
qed

lemma paragraph_bold_found:
  assumes "paragraph_should_be_bold s"
  shows "finditer s \<noteq> []"
proof -
  from assms obtain k where k: "k \<in> set BOLD_PARAGRAPH_KEYS" "sublist k s"
    unfolding paragraph_should_be_bold_def list_ex_iff by blast
  from k(1) have "is_placeholder k"
    unfolding BOLD_PARAGRAPH_KEYS_def using is_placeholder_bold_paragraph_keys by auto
  with k(2) show ?thesis by (rule sublist_placeholder_found)
qed

lemma append_to_run_accepts:
  "list_all xml_compatible (bfr @ cs) \<Longrightarrow>
     append_to_run_from_text content bfr cs = Returns (content @ bfr @ cr_to_lf cs)"
  by (induction cs arbitrary: content bfr) (auto simp: cr_to_lf_def)

lemma append_to_run_refuses:
  "\<not> list_all xml_compatible (bfr @ cs) \<Longrightarrow>
     \<exists>content'. append_to_run_from_text content bfr cs = ValueError content'"
  by (induction cs arbitrary: content bfr) (auto simp: xml_compatible_def)

lemma emit_segments_accepted:
  "\<forall>seg \<in> set segs. list_all xml_compatible (fst seg) \<Longrightarrow>
     emit_segments p segs = Returns (p @ map run_of_segment (filter (\<lambda>seg. fst seg \<noteq> []) segs))"
proof (induction segs arbitrary: p)
  case Nil
  then show ?case by simp
next
  case (Cons seg segs)
  obtain t b where seg: "seg = (t, b)" by (cases seg)
  from Cons.prems seg have "list_all xml_compatible ([] @ t)" by simp
  then have a: "append_to_run_from_text [] [] t = Returns (cr_to_lf t)"
    using append_to_run_accepts[of "[]" t "[]"] by simp
  from Cons.prems have rest: "\<forall>seg \<in> set segs. list_all xml_compatible (fst seg)" by simp
  show ?case
    using Cons.IH[OF rest] a by (simp add: seg run_of_segment_def)
qed

lemma cr_to_lf_append: "cr_to_lf (xs @ ys) = cr_to_lf xs @ cr_to_lf ys"
  by (simp add: cr_to_lf_def)

lemma cr_to_lf_Nil_iff: "cr_to_lf t = [] \<longleftrightarrow> t = []"
  by (simp add: cr_to_lf_def)

lemma cr_to_lf_id: "CHR 0x0D \<notin> set t \<Longrightarrow> cr_to_lf t = t"
  by (induction t) (auto simp: cr_to_lf_def)

lemma full_text_runs_of_segments:
  "full_text_of (map run_of_segment (filter (\<lambda>seg. fst seg \<noteq> []) segs))
     = cr_to_lf (concat (map fst segs))"
  by (induction segs) (auto simp: full_text_of_def run_of_segment_def cr_to_lf_def)

lemma full_text_append: "full_text_of (p @ q) = full_text_of p @ full_text_of q"
  by (simp add: full_text_of_def)

lemma full_text_cleared: "full_text_of (map (\<lambda>r. r\<lparr>run_text := []\<rparr>) p) = []"
  by (induction p) (auto simp: full_text_of_def)

lemma segments_text: "concat (map fst (build_segments repl s)) = spec_substitute repl s"
  by (simp add: build_segments_pieces map_fst_segment_of pieces_subst)

lemma segments_accepted:
  assumes "list_all xml_compatible (spec_substitute repl s)"
  shows "\<forall>seg \<in> set (build_segments repl s). list_all xml_compatible (fst seg)"
proof
  fix seg assume "seg \<in> set (build_segments repl s)"
  then have "set (fst seg) \<subseteq> set (concat (map fst (build_segments repl s)))" by auto
  with assms show "list_all xml_compatible (fst seg)"
    unfolding segments_text list_all_iff by blast
qed

lemma replace_not_found:
  assumes "finditer (full_text_of p) = []"
  shows "replace_placeholders_in_paragraph p repl = Returns p"
  using assms by (simp add: replace_placeholders_in_paragraph_def Let_def)

lemma replace_found:
  assumes "finditer (full_text_of p) \<noteq> []"
  shows "replace_placeholders_in_paragraph p repl =
           emit_segments (map (\<lambda>r. r\<lparr>run_text := []\<rparr>) p)
             (build_segments repl (full_text_of p))"
  using assms no_braces_no_match[of "full_text_of p"]
  by (auto simp: replace_placeholders_in_paragraph_def Let_def)

lemma replace_emitted:
  assumes "finditer (full_text_of p) \<noteq> []"
    and "list_all xml_compatible (spec_substitute repl (full_text_of p))"
  shows "replace_placeholders_in_paragraph p repl =
           Returns (map (\<lambda>r. r\<lparr>run_text := []\<rparr>) p @
             map run_of_segment
               (filter (\<lambda>seg. fst seg \<noteq> []) (build_segments repl (full_text_of p))))"
  using emit_segments_accepted[OF segments_accepted[OF assms(2)]]
  by (simp add: replace_found[OF assms(1)])

lemma spec_substitute_no_match:
  assumes "finditer s = []"
  shows "spec_substitute repl s = s"
proof -
  from assms have "pieces s = pieces_from s 0 []" by (simp add: pieces_def)
  then have "concat (map (piece_subst repl) (pieces s)) = s" by simp
  then show ?thesis by (simp only: pieces_subst)
qed

section \<open>Properties of the trimming\<close>

lemma paragraphs_append: "paragraphs (xs @ ys) = paragraphs xs @ paragraphs ys"
  by (induction xs rule: paragraphs.induct) simp_all

lemma paragraphs_rev: "paragraphs (rev xs) = rev (paragraphs xs)"
  by (induction xs rule: paragraphs.induct) (simp_all add: paragraphs_append)

lemma tables_append: "tables (xs @ ys) = tables xs @ tables ys"
  by (induction xs rule: tables.induct) simp_all

lemma tables_rev: "tables (rev xs) = rev (tables xs)"
  by (induction xs rule: tables.induct) (simp_all add: tables_append)

lemma trim_leading_no_paragraphs: "paragraphs xs = [] \<Longrightarrow> trim_leading xs = xs"
  by (induction xs rule: trim_leading.induct) simp_all

lemma trim_leading_nonempty_first:
  "paragraphs xs \<noteq> [] \<Longrightarrow> \<not> is_paragraph_empty (hd (paragraphs xs)) \<Longrightarrow> trim_leading xs = xs"
  by (induction xs rule: trim_leading.induct) simp_all

lemma trim_leading_empty_first:
  "paragraphs xs \<noteq> [] \<Longrightarrow> is_paragraph_empty (hd (paragraphs xs)) \<Longrightarrow>
     trim_leading xs = trim_leading (remove_first_paragraph xs)"
  by (induction xs rule: trim_leading.induct) simp_all

lemma remove_trailing_eq_trim:
  "remove_trailing_empty_paragraphs_from_block blk = rev (trim_leading (rev blk))"
proof (induction blk rule: remove_trailing_empty_paragraphs_from_block.induct)
  case (1 blk)
  show ?case
  proof (cases "paragraphs blk = []")
    case True
    then have "trim_leading (rev blk) = rev blk"
      by (simp add: trim_leading_no_paragraphs paragraphs_rev)
    with True show ?thesis
      by (simp add: remove_trailing_empty_paragraphs_from_block.simps[of blk])
  next
    case False
    then have ne: "paragraphs (rev blk) \<noteq> []" by (simp add: paragraphs_rev)
    have hd: "hd (paragraphs (rev blk)) = last (paragraphs blk)"
      using False by (simp add: paragraphs_rev hd_rev)
    show ?thesis
    proof (cases "is_paragraph_empty (last (paragraphs blk))")
      case True
      have "remove_trailing_empty_paragraphs_from_block blk
              = rev (trim_leading (rev (remove_last_paragraph blk)))"
        using "1.IH"[OF False True] False True
        by (simp add: remove_trailing_empty_paragraphs_from_block.simps[of blk])
      also have "\<dots> = rev (trim_leading (rev blk))"
        using trim_leading_empty_first[OF ne] True hd
        by (simp add: remove_last_paragraph_def)
      finally show ?thesis .
    next
      case F: False
      then have "trim_leading (rev blk) = rev blk"
        using trim_leading_nonempty_first[OF ne] hd by simp
      with False F show ?thesis
        by (simp add: remove_trailing_empty_paragraphs_from_block.simps[of blk])
    qed
  qed
qed

lemma paragraphs_trim_leading:
  "paragraphs (trim_leading xs) = dropWhile is_paragraph_empty (paragraphs xs)"
  by (induction xs rule: trim_leading.induct) simp_all

lemma tables_trim_leading: "tables (trim_leading xs) = tables xs"
  by (induction xs rule: trim_leading.induct) simp_all

lemma suffix_trim_or: "subseq (trim_leading xs) xs"
  by (induction xs rule: trim_leading.induct) auto

lemma subseq_rev_rev:
  assumes "subseq xs ys"
  shows "subseq (rev xs) (rev ys)"
  using assms
proof (induction rule: list_emb.induct)
  case (list_emb_Nil ys)
  then show ?case by simp
next
  case (list_emb_Cons xs ys y)
  then show ?case by (simp add: subseq_rev_drop_many)
next
  case (list_emb_Cons2 x y xs ys)
  then show ?case by (simp add: list_emb_append_mono)
qed

lemma trim_leading_append:
  "trim_leading (ys @ zs) =
     (if list_all is_paragraph_empty (paragraphs ys) then trim_leading ys @ trim_leading zs
      else trim_leading ys @ zs)"
  by (induction ys rule: trim_leading.induct) simp_all

lemma without_trailing_empty_eq_trim:
  "without_trailing_empty blk = rev (trim_leading (rev blk))"
proof (induction blk rule: without_trailing_empty.induct)
  case 1
  then show ?case by simp
next
  case (2 t items)
  then show ?case by (simp add: trim_leading_append)
next
  case (3 p items)
  have a: "list_all is_paragraph_empty (paragraphs (rev items))
             \<longleftrightarrow> list_all is_paragraph_empty (paragraphs items)"
    by (simp add: paragraphs_rev list_all_iff)
  show ?case
  proof (cases "list_all is_paragraph_empty (p # paragraphs items)")
    case True
    with "3.IH"(1) a show ?thesis by (simp add: trim_leading_append)
  next
    case False
    with "3.IH"(2) a show ?thesis by (auto simp: trim_leading_append)
  qed
qed

section \<open>Properties of the numbering\<close>

lemma occurs_at_0_iff:
  "occurs_at lit s 0 ds \<longleftrightarrow>
     prefix lit s \<and> ds = takeWhile is_decimal (drop (length lit) s) \<and> ds \<noteq> []"
proof
  assume "occurs_at lit s 0 ds"
  then obtain post where p: "s = lit @ ds @ post" "ds \<noteq> []" "\<forall>c \<in> set ds. is_decimal c"
      "post = [] \<or> \<not> is_decimal (hd post)"
    unfolding occurs_at_def by auto
  from p(4) have "takeWhile is_decimal post = []" by (simp add: takeWhile_eq_Nil_iff)
  with p(3) have "takeWhile is_decimal (ds @ post) = ds" by (simp add: takeWhile_append2)
  with p(1,2) show "prefix lit s \<and> ds = takeWhile is_decimal (drop (length lit) s) \<and> ds \<noteq> []"
    by simp
next
  assume a: "prefix lit s \<and> ds = takeWhile is_decimal (drop (length lit) s) \<and> ds \<noteq> []"
  then obtain rest where r: "s = lit @ rest" by (auto simp: prefix_def)
  define post where "post = dropWhile is_decimal rest"
  from a r have ds: "ds = takeWhile is_decimal rest" by simp
  have "rest = ds @ post" by (simp add: ds post_def)
  moreover have "post = [] \<or> \<not> is_decimal (hd post)"
    unfolding post_def using hd_dropWhile[of is_decimal rest] by blast
  moreover have "\<forall>c \<in> set ds. is_decimal c" unfolding ds by (auto dest: set_takeWhileD)
  ultimately show "occurs_at lit s 0 ds"
    unfolding occurs_at_def using a r by auto
qed

lemma occurs_at_Suc: "occurs_at lit (c # cs) (Suc i) ds \<longleftrightarrow> occurs_at lit cs i ds"
  by (simp add: occurs_at_def)

lemma occurs_at_Nil: "\<not> occurs_at lit [] i ds"
  by (auto simp: occurs_at_def)

lemma pattern_search_iff:
  "pattern_search lit s = Some ds \<longleftrightarrow>
     (\<exists>i. occurs_at lit s i ds \<and> (\<forall>j < i. \<forall>ds'. \<not> occurs_at lit s j ds'))"
proof (induction s)
  case Nil
  then show ?case by (simp add: occurs_at_Nil)
next
  case (Cons c cs)
  let ?s = "c # cs"
  let ?ds0 = "takeWhile is_decimal (drop (length lit) ?s)"
  show ?case
  proof (cases "prefix lit ?s \<and> ?ds0 \<noteq> []")
    case True
    then have ps: "pattern_search lit ?s = Some ?ds0" by (simp add: Let_def)
    from True have o0: "occurs_at lit ?s 0 ?ds0" by (simp add: occurs_at_0_iff)
    show ?thesis
    proof
      assume "pattern_search lit ?s = Some ds"
      with ps have "ds = ?ds0" by simp
      with o0 have "occurs_at lit ?s 0 ds \<and> (\<forall>j < 0. \<forall>ds'. \<not> occurs_at lit ?s j ds')" by simp
      then show "\<exists>i. occurs_at lit ?s i ds \<and> (\<forall>j < i. \<forall>ds'. \<not> occurs_at lit ?s j ds')" ..
    next
      assume "\<exists>i. occurs_at lit ?s i ds \<and> (\<forall>j < i. \<forall>ds'. \<not> occurs_at lit ?s j ds')"
      then obtain i where i: "occurs_at lit ?s i ds" "\<forall>j < i. \<forall>ds'. \<not> occurs_at lit ?s j ds'"
        by blast
      from i(2) o0 have "i = 0" by (cases i) auto
      with i(1) have "ds = ?ds0" by (simp add: occurs_at_0_iff)
      with ps show "pattern_search lit ?s = Some ds" by simp
    qed
  next
    case False
    then have ps: "pattern_search lit ?s = pattern_search lit cs" by (auto simp: Let_def)
    from False have n0: "\<not> occurs_at lit ?s 0 ds'" for ds' by (auto simp: occurs_at_0_iff)
    show ?thesis
    proof
      assume "pattern_search lit ?s = Some ds"
      with ps Cons.IH obtain i where
        i: "occurs_at lit cs i ds" "\<forall>j < i. \<forall>ds'. \<not> occurs_at lit cs j ds'" by auto
      have "\<forall>j < Suc i. \<forall>ds'. \<not> occurs_at lit ?s j ds'"
      proof (intro allI impI)
        fix j ds' assume "j < Suc i"
        then show "\<not> occurs_at lit ?s j ds'"
          using n0 i(2) by (cases j) (auto simp: occurs_at_Suc)
      qed
      with i(1) have "occurs_at lit ?s (Suc i) ds \<and> (\<forall>j < Suc i. \<forall>ds'. \<not> occurs_at lit ?s j ds')"
        by (simp add: occurs_at_Suc)
      then show "\<exists>i. occurs_at lit ?s i ds \<and> (\<forall>j < i. \<forall>ds'. \<not> occurs_at lit ?s j ds')" ..
    next
      assume "\<exists>i. occurs_at lit ?s i ds \<and> (\<forall>j < i. \<forall>ds'. \<not> occurs_at lit ?s j ds')"
      then obtain i where i: "occurs_at lit ?s i ds" "\<forall>j < i. \<forall>ds'. \<not> occurs_at lit ?s j ds'"
        by blast
      from i(1) n0 obtain k where k: "i = Suc k" by (cases i) auto
      with i(1) have a: "occurs_at lit cs k ds" by (simp add: occurs_at_Suc)
      have b: "\<forall>j < k. \<forall>ds'. \<not> occurs_at lit cs j ds'"
      proof (intro allI impI)
        fix j ds' assume "j < k"
        then have "Suc j < i" using k by simp
        with i(2) have "\<not> occurs_at lit ?s (Suc j) ds'" by blast
        then show "\<not> occurs_at lit cs j ds'" by (simp add: occurs_at_Suc)
      qed
      from a b Cons.IH have "pattern_search lit cs = Some ds" by blast
      with ps show "pattern_search lit ?s = Some ds" by simp
    qed
  qed
qed

lemma scan_step_found_value:
  "scan_step pattern m path = (case found_value pattern path of None \<Rightarrow> m | Some v \<Rightarrow> max m v)"
  by (auto simp: scan_step_def found_value_def split: option.splits)

lemma found_value_iff:
  "found_value (GB_prefix month) name = Some v \<longleftrightarrow> suffix_found month name v"
proof -
  have "found_value (GB_prefix month) name = Some v \<longleftrightarrow>
          (\<exists>ds. pattern_search (GB_prefix month) (stem name) = Some ds \<and> py_int ds = Some v)"
    by (auto simp: found_value_def split: option.splits)
  also have "\<dots> \<longleftrightarrow> suffix_found month name v"
    unfolding pattern_search_iff suffix_found_def token_at_def by blast
  finally show ?thesis .
qed

lemma foldl_scan_step:
  "m0 \<le> foldl (scan_step pat) m0 xs
   \<and> (\<forall>x \<in> set xs. \<forall>v. found_value pat x = Some v \<longrightarrow> v \<le> foldl (scan_step pat) m0 xs)
   \<and> (foldl (scan_step pat) m0 xs = m0
        \<or> (\<exists>x \<in> set xs. found_value pat x = Some (foldl (scan_step pat) m0 xs)))"
proof (induction xs arbitrary: m0)
  case Nil
  then show ?case by simp
next
  case (Cons x xs)
  let ?m1 = "scan_step pat m0 x"
  note ih = Cons.IH[of ?m1]
  have m1: "m0 \<le> ?m1" by (simp add: scan_step_found_value split: option.splits)
  have m1v: "found_value pat x = Some v \<Longrightarrow> v \<le> ?m1" for v
    by (simp add: scan_step_found_value)
  have m1c: "?m1 = m0 \<or> found_value pat x = Some ?m1"
    by (auto simp: scan_step_found_value max_def split: option.splits)
  show ?case
  proof (intro conjI)
    show "m0 \<le> foldl (scan_step pat) m0 (x # xs)" using ih m1 by simp
    show "\<forall>y \<in> set (x # xs). \<forall>v. found_value pat y = Some v \<longrightarrow>
            v \<le> foldl (scan_step pat) m0 (x # xs)"
      using ih m1v by (auto intro: order_trans)
    show "foldl (scan_step pat) m0 (x # xs) = m0
          \<or> (\<exists>y \<in> set (x # xs). found_value pat y = Some (foldl (scan_step pat) m0 (x # xs)))"
      using ih m1c by auto
  qed
qed


lemma digit_char_cases:
  assumes "d < 10"
  shows "is_decimal (digit_char d) \<and> digit_value (digit_char d) = d
         \<and> (digit_char d = CHR ''0'' \<longleftrightarrow> d = 0)"
proof -
  have "list_all (\<lambda>d. is_decimal (digit_char d) \<and> digit_value (digit_char d) = d
          \<and> (digit_char d = CHR ''0'' \<longleftrightarrow> d = 0)) [0..<10]"
    by code_simp
  with assms show ?thesis by (simp add: list_all_iff)
qed

lemma decimal_digits: "decimal n \<noteq> [] \<and> list_all is_decimal (decimal n)"
proof (induction n rule: decimal.induct)
  case (1 n)
  show ?case
  proof (cases "n < 10")
    case True
    then show ?thesis using digit_char_cases[of n] by (simp add: decimal.simps[of n])
  next
    case False
    then show ?thesis using "1.IH" digit_char_cases[of "n mod 10"]
      by (simp add: decimal.simps[of n])
  qed
qed

lemma decimal_value:
  "foldl (\<lambda>a c. 10 * a + digit_value c) 0 (decimal n) = n"
proof (induction n rule: decimal.induct)
  case (1 n)
  show ?case
  proof (cases "n < 10")
    case True
    then show ?thesis using digit_char_cases[of n] by (simp add: decimal.simps[of n])
  next
    case False
    then show ?thesis using "1.IH" digit_char_cases[of "n mod 10"]
      by (simp add: decimal.simps[of n])
  qed
qed

lemma decimal_no_leading_zero: "0 < n \<Longrightarrow> hd (decimal n) \<noteq> CHR ''0''"
proof (induction n rule: decimal.induct)
  case (1 n)
  show ?case
  proof (cases "n < 10")
    case True
    then show ?thesis using "1.prems" digit_char_cases[of n] by (simp add: decimal.simps[of n])
  next
    case False
    then have "0 < n div 10" by simp
    with "1.IH" False have "hd (decimal (n div 10)) \<noteq> CHR ''0''" by simp
    with False decimal_digits[of "n div 10"] show ?thesis
      by (simp add: decimal.simps[of n])
  qed
qed

lemma length_decimal_small: "n < 100 \<Longrightarrow> length (decimal n) \<le> 2"
  by (simp add: decimal.simps[of n] decimal.simps[of "n div 10"])

lemma length_decimal_large: "100 \<le> n \<Longrightarrow> 3 \<le> length (decimal n)"
  using decimal_digits[of "n div 10 div 10"]
  by (cases "decimal (n div 10 div 10)")
     (simp_all add: decimal.simps[of n] decimal.simps[of "n div 10"])

lemma foldl_digits_zeros:
  "foldl (\<lambda>a c. 10 * a + digit_value c) 0 (replicate k CHR ''0'' @ ds)
     = foldl (\<lambda>a c. 10 * a + digit_value c) 0 ds"
  by (induction k) (simp_all add: digit_value_def)

lemma format_02d_props:
  "py_int (format_02d n) = Some n
   \<and> list_all is_decimal (format_02d n)
   \<and> (n < 100 \<longrightarrow> length (format_02d n) = 2)
   \<and> (100 \<le> n \<longrightarrow> format_02d n = decimal n \<and> hd (decimal n) \<noteq> CHR ''0'')"
proof (intro conjI impI)
  have z: "is_decimal CHR ''0''" by (simp add: is_decimal_def)
  show d: "list_all is_decimal (format_02d n)"
    using decimal_digits[of n] z by (auto simp: format_02d_def list_all_iff)
  have "format_02d n \<noteq> []" using decimal_digits[of n] by (simp add: format_02d_def)
  moreover have "foldl (\<lambda>a c. 10 * a + digit_value c) 0 (format_02d n) = n"
    unfolding format_02d_def foldl_digits_zeros by (rule decimal_value)
  ultimately show "py_int (format_02d n) = Some n"
    using d by (simp add: py_int_def)
  show "length (format_02d n) = 2" if "n < 100"
    using length_decimal_small[OF that] by (simp add: format_02d_def)
  show "format_02d n = decimal n" if "100 \<le> n"
    using length_decimal_large[OF that] by (simp add: format_02d_def)
  show "hd (decimal n) \<noteq> CHR ''0''" if "100 \<le> n"
    using that by (intro decimal_no_leading_zero) simp
qed

lemma occurs_at_exec:
  "occurs_at lit s i ds \<longleftrightarrow>
     i \<le> length s \<and> prefix lit (drop i s)
     \<and> ds = takeWhile is_decimal (drop (length lit) (drop i s)) \<and> ds \<noteq> []"
proof -
  have "occurs_at lit s i ds \<longleftrightarrow> i \<le> length s \<and> occurs_at lit (drop i s) 0 ds"
    by (auto simp: occurs_at_def)
  then show ?thesis by (simp only: occurs_at_0_iff)
qed

section \<open>Properties of the request validation\<close>

lemma generate_invoice_invalid_amount:
  "(case y_value request_form of None \<Rightarrow> None | Some s \<Rightarrow> float_of s) = None \<Longrightarrow>
     generate_invoice float_of ceil_markup strptime today amounts_in_words request_form
       = Returned 400 ''Invalid y_value''"
  by (simp add: generate_invoice_def)

lemma generate_invoice_invalid_suffix:
  "y_value request_form = Some s \<Longrightarrow> float_of s = Some y \<Longrightarrow> ceil_markup y = Some n \<Longrightarrow>
   \<not> isdigit (strip (case invoice_suffix request_form of None \<Rightarrow> [] | Some s \<Rightarrow> s)) \<Longrightarrow>
     generate_invoice float_of ceil_markup strptime today amounts_in_words request_form
       = Returned 400 ''Invoice suffix must be numeric''"
  by (simp add: generate_invoice_def)

section \<open>Claims about the substitution engine\<close>

text \<open>
  Claim C1, as amended.  For every paragraph and every replacement map such that the
  substituted text holds no character that the XML library refuses, the function returns,
  and the concatenation of the paragraph's run texts is then the original concatenated text
  in which every placeholder match whose token is a key of the map is replaced by its mapped
  value, while tokens that are not keys and all literal text stay as they are; when a match
  was found, every carriage return of that text reads back as a line feed, so the two texts
  are equal when the substituted text holds no carriage return.  The last two conjuncts say
  what the substituted text is through the pieces: they spell the original text, and the
  substituted text is their concatenation with every token piece looked up in the map.
\<close>

theorem replace_text_is_substitution:
  assumes "list_all xml_compatible (spec_substitute repl (full_text_of p))"
  shows "\<exists>p'. replace_placeholders_in_paragraph p repl = Returns p'
           \<and> full_text_of p' =
               (if finditer (full_text_of p) = [] then full_text_of p
                else cr_to_lf (spec_substitute repl (full_text_of p)))
           \<and> (CHR 0x0D \<notin> set (spec_substitute repl (full_text_of p)) \<longrightarrow>
                full_text_of p' = spec_substitute repl (full_text_of p))
           \<and> spec_substitute repl (full_text_of p)
               = concat (map (piece_subst repl) (pieces (full_text_of p)))
           \<and> concat (map piece_text (pieces (full_text_of p))) = full_text_of p"
proof (cases "finditer (full_text_of p) = []")
  case True
  have "replace_placeholders_in_paragraph p repl = Returns p"
    using True by (rule replace_not_found)
  moreover have "spec_substitute repl (full_text_of p) = full_text_of p"
    using True by (rule spec_substitute_no_match)
  ultimately show ?thesis using True by (simp add: pieces_subst pieces_text)
next
  case False
  let ?p' = "map (\<lambda>r. r\<lparr>run_text := []\<rparr>) p @
             map run_of_segment
               (filter (\<lambda>seg. fst seg \<noteq> []) (build_segments repl (full_text_of p)))"
  have r: "replace_placeholders_in_paragraph p repl = Returns ?p'"
    using False assms by (rule replace_emitted)
  have t: "full_text_of ?p' = cr_to_lf (spec_substitute repl (full_text_of p))"
    by (simp add: full_text_append full_text_cleared full_text_runs_of_segments segments_text)
  have "CHR 0x0D \<notin> set (spec_substitute repl (full_text_of p)) \<longrightarrow>
          full_text_of ?p' = spec_substitute repl (full_text_of p)"
    unfolding t by (simp add: cr_to_lf_id)
  with r t False show ?thesis by (simp add: pieces_subst pieces_text)
qed

text \<open>
  A paragraph whose first token is split over two runs, with a token the map does not know,
  an empty pair of braces and an unbalanced brace, all of which stay as they are.
\<close>

theorem replace_text_is_substitution_witness:
  "list_all xml_compatible (spec_substitute
      [''{{invoice_no}}'' \<mapsto> ''GB-0125-04'', ''{{date}}'' \<mapsto> ''05/01/2025'']
      (full_text_of
        [\<lparr>run_text = ''Invoice {{invoice'', run_bold = None, run_other = Some (3::nat)\<rparr>,
         \<lparr>run_text = ''_no}} of {{date}}, {{unknown}} {{}} {x}}'', run_bold = Some True,
          run_other = None\<rparr>]))
   \<and> (\<exists>p'. replace_placeholders_in_paragraph
        [\<lparr>run_text = ''Invoice {{invoice'', run_bold = None, run_other = Some (3::nat)\<rparr>,
         \<lparr>run_text = ''_no}} of {{date}}, {{unknown}} {{}} {x}}'', run_bold = Some True,
          run_other = None\<rparr>]
        [''{{invoice_no}}'' \<mapsto> ''GB-0125-04'', ''{{date}}'' \<mapsto> ''05/01/2025''] = Returns p'
      \<and> full_text_of p' = ''Invoice GB-0125-04 of 05/01/2025, {{unknown}} {{}} {x}}'')"
proof -
  let ?p = "[\<lparr>run_text = ''Invoice {{invoice'', run_bold = None, run_other = Some (3::nat)\<rparr>,
       \<lparr>run_text = ''_no}} of {{date}}, {{unknown}} {{}} {x}}'', run_bold = Some True,
        run_other = None\<rparr>]"
  let ?m = "[''{{invoice_no}}'' \<mapsto> ''GB-0125-04'', ''{{date}}'' \<mapsto> ''05/01/2025'']"
  have s: "spec_substitute ?m (full_text_of ?p)
             = ''Invoice GB-0125-04 of 05/01/2025, {{unknown}} {{}} {x}}''"
    by code_simp
  have h: "list_all xml_compatible (spec_substitute ?m (full_text_of ?p))"
    by code_simp
  have n: "CHR 0x0D \<notin> set (spec_substitute ?m (full_text_of ?p))"
    by code_simp
  from replace_text_is_substitution[OF h]
  obtain p' where c: "replace_placeholders_in_paragraph ?p ?m = Returns p'
           \<and> full_text_of p' =
               (if finditer (full_text_of ?p) = [] then full_text_of ?p
                else cr_to_lf (spec_substitute ?m (full_text_of ?p)))
           \<and> (CHR 0x0D \<notin> set (spec_substitute ?m (full_text_of ?p)) \<longrightarrow>
                full_text_of p' = spec_substitute ?m (full_text_of ?p))
           \<and> spec_substitute ?m (full_text_of ?p)
               = concat (map (piece_subst ?m) (pieces (full_text_of ?p)))
           \<and> concat (map piece_text (pieces (full_text_of ?p))) = full_text_of ?p" ..
  have r: "replace_placeholders_in_paragraph ?p ?m = Returns p'" using c by (rule conjunct1)
  have "full_text_of p' = spec_substitute ?m (full_text_of ?p)"
    using c[THEN conjunct2, THEN conjunct2, THEN conjunct1, THEN mp, OF n] .
  then have t: "full_text_of p' = ''Invoice GB-0125-04 of 05/01/2025, {{unknown}} {{}} {x}}''"
    unfolding s .
  have "\<exists>p'. replace_placeholders_in_paragraph ?p ?m = Returns p'
      \<and> full_text_of p' = ''Invoice GB-0125-04 of 05/01/2025, {{unknown}} {{}} {x}}''"
    by (rule exI[of _ p'], rule conjI, rule r, rule t)
  with h show ?thesis by (rule conjI)
qed

text \<open>
  Claim C1 as stated fails for some replacement maps.  A value with a carriage return and a
  line feed is stored as two line breaks, so the text after the call holds two line feeds
  where the substituted text holds a carriage return and a line feed.  A value with the
  control character 1 makes \<open>add_run\<close> raise after the old runs have been emptied: the text
  after the call is \<open>Pay: \<close>, and the rest of the paragraph is lost.
\<close>

theorem carriage_return_control_character_counterexample:
  "replace_placeholders_in_paragraph
      [\<lparr>run_text = ''Pay: {{payment_type}}'', run_bold = None, run_other = None :: nat option\<rparr>]
      [''{{payment_type}}'' \<mapsto> ''cash'' @ [CHR 0x0D, CHR 0x0A] @ ''NEFT'']
    = Returns
        [\<lparr>run_text = [], run_bold = None, run_other = None\<rparr>,
         \<lparr>run_text = ''Pay: '', run_bold = None, run_other = None\<rparr>,
         \<lparr>run_text = ''cash'' @ [CHR 0x0A, CHR 0x0A] @ ''NEFT'', run_bold = None,
          run_other = None\<rparr>]
   \<and> spec_substitute [''{{payment_type}}'' \<mapsto> ''cash'' @ [CHR 0x0D, CHR 0x0A] @ ''NEFT'']
        ''Pay: {{payment_type}}'' = ''Pay: cash'' @ [CHR 0x0D, CHR 0x0A] @ ''NEFT''
   \<and> replace_placeholders_in_paragraph
      [\<lparr>run_text = ''Pay: {{payment_type}} now'', run_bold = None, run_other = None :: nat option\<rparr>]
      [''{{payment_type}}'' \<mapsto> ''cash'' @ [CHR 0x01]]
    = ValueError
        [\<lparr>run_text = [], run_bold = None, run_other = None\<rparr>,
         \<lparr>run_text = ''Pay: '', run_bold = None, run_other = None\<rparr>,
         \<lparr>run_text = [], run_bold = None, run_other = None\<rparr>]"
  by code_simp

text \<open>
  Claim C3.  The scan finds exactly the left-to-right, non-overlapping occurrences of the
  pattern: every span it returns is a placeholder token inside the text, whose body holds no
  closing brace, so that it ends at the first closing double brace; the spans are ordered
  and do not overlap; every occurrence of a placeholder token in the text is either one of
  the spans or starts strictly inside a span that starts before it; the token pieces are the
  matched slices, the pieces spell the text verbatim, and the texts of the segments built by
  the loop are the pieces with the tokens looked up.
\<close>

theorem finditer_leftmost_matches:
  "(\<forall>(a, b) \<in> set (finditer s). a < b \<and> b \<le> length s \<and> is_placeholder (slice s a b))
   \<and> sorted_wrt (\<lambda>(a, b) (c, d). b \<le> c) (finditer s)
   \<and> (\<forall>j n. j + n \<le> length s \<and> is_placeholder (slice s j (j + n)) \<longrightarrow>
          (\<exists>(a, b) \<in> set (finditer s). (a = j \<and> b = j + n) \<or> (a < j \<and> j < b)))
   \<and> tokens_of (pieces s) = map (\<lambda>(a, b). slice s a b) (finditer s)
   \<and> concat (map piece_text (pieces s)) = s
   \<and> map fst (build_segments repl s) = map (piece_subst repl) (pieces s)"
proof (intro conjI)
  show "\<forall>(a, b) \<in> set (finditer s). a < b \<and> b \<le> length s \<and> is_placeholder (slice s a b)"
  proof (clarify)
    fix a b assume "(a, b) \<in> set (finditer s)"
    from finditer_from_spans[OF this[unfolded finditer_def]]
    have h: "a < b" "b \<le> length s" "PLACEHOLDER_RE (drop a s) = Some (b - a)" by simp_all
    from h(3) have "is_placeholder (slice s a b)"
      unfolding slice_def using PLACEHOLDER_RE_iff by blast
    with h show "a < b \<and> b \<le> length s \<and> is_placeholder (slice s a b)" by simp
  qed
  show "sorted_wrt (\<lambda>(a, b) (c, d). b \<le> c) (finditer s)"
    unfolding finditer_def by (rule finditer_from_sorted)
  show "\<forall>j n. j + n \<le> length s \<and> is_placeholder (slice s j (j + n)) \<longrightarrow>
          (\<exists>(a, b) \<in> set (finditer s). (a = j \<and> b = j + n) \<or> (a < j \<and> j < b))"
  proof (intro allI impI)
    fix j n assume a: "j + n \<le> length s \<and> is_placeholder (slice s j (j + n))"
    then have "n \<le> length (drop j s)" "is_placeholder (take n (drop j s))"
      by (auto simp: slice_def)
    then have "PLACEHOLDER_RE (drop j s) = Some n"
      using PLACEHOLDER_RE_iff by blast
    from finditer_from_complete[OF _ this, of 0]
    show "\<exists>(a, b) \<in> set (finditer s). (a = j \<and> b = j + n) \<or> (a < j \<and> j < b)"
      unfolding finditer_def by simp
  qed
  show "tokens_of (pieces s) = map (\<lambda>(a, b). slice s a b) (finditer s)"
    by (simp add: pieces_def tokens_of_pieces_from)
  show "concat (map piece_text (pieces s)) = s" by (rule pieces_text)
  show "map fst (build_segments repl s) = map (piece_subst repl) (pieces s)"
    by (simp add: build_segments_pieces map_fst_segment_of)
qed

text \<open>
  The scan on a text with a plain token, an empty pair of braces, a token opened twice and a
  body broken by a single closing brace.
\<close>

theorem finditer_leftmost_matches_witness:
  "finditer ''a{{x}}b{{}}{{{{y}}{{z}q}}'' = [(1, 6), (11, 18)]
   \<and> is_placeholder (slice ''a{{x}}b{{}}{{{{y}}{{z}q}}'' 1 6)
   \<and> is_placeholder (slice ''a{{x}}b{{}}{{{{y}}{{z}q}}'' 11 18)
   \<and> tokens_of (pieces ''a{{x}}b{{}}{{{{y}}{{z}q}}'') = [''{{x}}'', ''{{{{y}}'']
   \<and> concat (map piece_text (pieces ''a{{x}}b{{}}{{{{y}}{{z}q}}''))
       = ''a{{x}}b{{}}{{{{y}}{{z}q}}''"
proof -
  let ?s = "''a{{x}}b{{}}{{{{y}}{{z}q}}''"
  have f: "finditer ?s = [(1, 6), (11, 18)]"
    by code_simp
  have t: "map (\<lambda>(a, b). slice ?s a b) [(1, 6), (11, 18)] = [''{{x}}'', ''{{{{y}}'']"
    by code_simp
  note th = finditer_leftmost_matches[of ?s Map.empty, unfolded f]
  from th have a: "\<forall>(a, b) \<in> set [(1, 6), (11, 18)]. a < b \<and> b \<le> length ?s \<and> is_placeholder (slice ?s a b)"
    by (rule conjunct1)
  from a have p1: "is_placeholder (slice ?s 1 6)" and p2: "is_placeholder (slice ?s 11 18)"
    by (simp_all only: list.set ball_simps prod.case)
  from th have tk: "tokens_of (pieces ?s) = map (\<lambda>(a, b). slice ?s a b) [(1, 6), (11, 18)]"
    by blast
  from th have cc: "concat (map piece_text (pieces ?s)) = ?s"
    by blast
  show ?thesis using f p1 p2 tk[unfolded t] cc by blast 
qed

text \<open>
  Claim C5.  The function changes nothing when the concatenated run text contains no opening
  double brace, and nothing either when it does but no part of the text is a complete
  placeholder token: it returns, and the paragraph's runs are as they were, for every map.
\<close>

theorem replace_noop_without_match:
  assumes "\<not> sublist ''{{'' (full_text_of p)
           \<or> \<not> (\<exists>pre tok post. full_text_of p = pre @ tok @ post \<and> is_placeholder tok)"
  shows "replace_placeholders_in_paragraph p repl = Returns p"
proof -
  have "finditer (full_text_of p) = []"
  proof (cases "sublist ''{{'' (full_text_of p)")
    case False
    then show ?thesis by (rule no_braces_no_match)
  next
    case True
    with assms have "\<not> (\<exists>pre tok post. full_text_of p = pre @ tok @ post \<and> is_placeholder tok)"
      by simp
    then show ?thesis unfolding finditer_nonempty_iff[symmetric] by simp
  qed
  then show ?thesis by (rule replace_not_found)
qed

text \<open>
  A paragraph without braces, and one whose opening braces are split over two runs and never
  closed by a double brace.
\<close>

theorem replace_noop_without_match_witness:
  "\<not> sublist ''{{'' (full_text_of [\<lparr>run_text = ''Total'', run_bold = Some True, run_other = Some (1::nat)\<rparr>])
   \<and> replace_placeholders_in_paragraph
        [\<lparr>run_text = ''Total'', run_bold = Some True, run_other = Some (1::nat)\<rparr>]
        [''{{date}}'' \<mapsto> ''01/02/2025'']
       = Returns [\<lparr>run_text = ''Total'', run_bold = Some True, run_other = Some 1\<rparr>]
   \<and> sublist ''{{'' (full_text_of
         [\<lparr>run_text = ''a {'', run_bold = None, run_other = None :: nat option\<rparr>,
          \<lparr>run_text = ''{date} }'', run_bold = Some False, run_other = Some 2\<rparr>])
   \<and> \<not> (\<exists>pre tok post. full_text_of
         [\<lparr>run_text = ''a {'', run_bold = None, run_other = None :: nat option\<rparr>,
          \<lparr>run_text = ''{date} }'', run_bold = Some False, run_other = Some 2\<rparr>]
            = pre @ tok @ post \<and> is_placeholder tok)
   \<and> replace_placeholders_in_paragraph
        [\<lparr>run_text = ''a {'', run_bold = None, run_other = None :: nat option\<rparr>,
         \<lparr>run_text = ''{date} }'', run_bold = Some False, run_other = Some 2\<rparr>]
        [''{{date}}'' \<mapsto> ''01/02/2025'']
       = Returns [\<lparr>run_text = ''a {'', run_bold = None, run_other = None\<rparr>,
          \<lparr>run_text = ''{date} }'', run_bold = Some False, run_other = Some 2\<rparr>]"
proof -
  let ?p1 = "[\<lparr>run_text = ''Total'', run_bold = Some True, run_other = Some (1::nat)\<rparr>]"
  let ?p2 = "[\<lparr>run_text = ''a {'', run_bold = None, run_other = None :: nat option\<rparr>,
              \<lparr>run_text = ''{date} }'', run_bold = Some False, run_other = Some 2\<rparr>]"
  have t1: "full_text_of ?p1 = ''Total''" and t2: "full_text_of ?p2 = ''a {{date} }''"
    by (simp_all add: full_text_of_def)
  have h1: "\<not> sublist ''{{'' (full_text_of ?p1)" unfolding t1 by code_simp
  have s2: "sublist ''{{'' (full_text_of ?p2)" unfolding t2 by code_simp
  have f2: "finditer ''a {{date} }'' = []" by code_simp
  have h2: "\<not> (\<exists>pre tok post. full_text_of ?p2 = pre @ tok @ post \<and> is_placeholder tok)"
    unfolding t2 finditer_nonempty_iff[symmetric] by (simp only: f2 not_not)
  have r1: "replace_placeholders_in_paragraph ?p1 [''{{date}}'' \<mapsto> ''01/02/2025''] = Returns ?p1"
    by (rule replace_noop_without_match[OF disjI1[OF h1]])
  have r2: "replace_placeholders_in_paragraph ?p2 [''{{date}}'' \<mapsto> ''01/02/2025''] = Returns ?p2"
    by (rule replace_noop_without_match[OF disjI2[OF h2]])
  show ?thesis
    by (intro conjI) (rule h1 r1 s2 h2 r2)+
qed

text \<open>
  Claim C2, as amended.  For every paragraph and map such that the substituted text holds no
  character that the XML library refuses, the function returns, and: when one of the
  paragraph-bold tokens \<open>{{sub_total_words}}\<close>, \<open>{{tax_to_words}}\<close>, \<open>{{sub_total}}\<close> occurs
  in the concatenated text, the scan finds a match and every emitted run, the runs of plain
  literal text included, has its bold flag set to true; when none of them occurs and a match
  is found, the emitted runs, read as pairs of text and bold flag, are the non-empty ones
  among: each literal piece, with no bold flag, and each token's replacement, with the flag
  set to true when the token is one of \<open>{{base_amo}}\<close>, \<open>{{cgst_c}}\<close>, \<open>{{sgst_c}}\<close>,
  \<open>{{tax_t}}\<close>, \<open>{{sub_total_words}}\<close>, \<open>{{tax_to_words}}\<close> and with no bold flag otherwise.
  The emitted runs are those after the paragraph's original ones; their texts are read back,
  with a line feed for every carriage return.
\<close>

theorem bold_policy:
  assumes "list_all xml_compatible (spec_substitute repl (full_text_of p))"
  shows "\<exists>p'. replace_placeholders_in_paragraph p repl = Returns p'
    \<and> ((\<exists>k \<in> {''{{sub_total_words}}'', ''{{tax_to_words}}'', ''{{sub_total}}''}.
          sublist k (full_text_of p)) \<longrightarrow>
        finditer (full_text_of p) \<noteq> [] \<and>
        (\<forall>r \<in> set (drop (length p) p'). run_bold r = Some True))
    \<and> (\<not> (\<exists>k \<in> {''{{sub_total_words}}'', ''{{tax_to_words}}'', ''{{sub_total}}''}.
          sublist k (full_text_of p)) \<and> finditer (full_text_of p) \<noteq> [] \<longrightarrow>
        map (\<lambda>r. (run_text r, run_bold r)) (drop (length p) p')
        = filter (\<lambda>(t, b). t \<noteq> [])
            (map (\<lambda>pc. case pc of
                    Literal t \<Rightarrow> (cr_to_lf t, None)
                  | Token k \<Rightarrow> (cr_to_lf (dict_get repl k),
                      if k \<in> {''{{base_amo}}'', ''{{cgst_c}}'', ''{{sgst_c}}'', ''{{tax_t}}'',
                               ''{{sub_total_words}}'', ''{{tax_to_words}}''}
                      then Some True else None))
              (pieces (full_text_of p))))"
proof (cases "finditer (full_text_of p) = []")
  case True
  have r: "replace_placeholders_in_paragraph p repl = Returns p"
    using True by (rule replace_not_found)
  have "\<not> (\<exists>k \<in> {''{{sub_total_words}}'', ''{{tax_to_words}}'', ''{{sub_total}}''}.
          sublist k (full_text_of p))"
    using True paragraph_bold_found[of "full_text_of p"]
    by (simp only: paragraph_should_be_bold_iff[symmetric]) blast
  with r True show ?thesis by simp
next
  case False
  let ?s = "full_text_of p"
  let ?new = "map run_of_segment (filter (\<lambda>seg. fst seg \<noteq> []) (build_segments repl ?s))"
  let ?p' = "map (\<lambda>r. r\<lparr>run_text := []\<rparr>) p @ ?new"
  have r: "replace_placeholders_in_paragraph p repl = Returns ?p'"
    using False assms by (rule replace_emitted)
  have d: "drop (length p) ?p' = ?new" by simp
  have one: "(\<exists>k \<in> {''{{sub_total_words}}'', ''{{tax_to_words}}'', ''{{sub_total}}''}.
          sublist k ?s) \<longrightarrow>
        finditer ?s \<noteq> [] \<and> (\<forall>r \<in> set (drop (length p) ?p'). run_bold r = Some True)"
  proof
    assume "\<exists>k \<in> {''{{sub_total_words}}'', ''{{tax_to_words}}'', ''{{sub_total}}''}. sublist k ?s"
    then have pb: "paragraph_should_be_bold ?s" by (simp only: paragraph_should_be_bold_iff)
    have sg: "snd seg" if "seg \<in> set (map (segment_of repl True) ps)" for seg ps
    proof -
      from that obtain pc where "seg = segment_of repl True pc" by auto
      then show ?thesis by (cases pc) simp_all
    qed
    have "\<forall>r \<in> set ?new. run_bold r = Some True"
    proof
      fix r assume "r \<in> set ?new"
      then obtain seg where seg: "r = run_of_segment seg"
          "seg \<in> set (map (segment_of repl True) (pieces ?s))"
        using pb by (auto simp: build_segments_pieces)
      from sg[OF seg(2)] seg(1) show "run_bold r = Some True" by (simp add: run_of_segment_def)
    qed
    with False show "finditer ?s \<noteq> [] \<and> (\<forall>r \<in> set (drop (length p) ?p'). run_bold r = Some True)"
      unfolding d by simp
  qed
  have two: "\<not> (\<exists>k \<in> {''{{sub_total_words}}'', ''{{tax_to_words}}'', ''{{sub_total}}''}.
          sublist k ?s) \<and> finditer ?s \<noteq> [] \<longrightarrow>
        map (\<lambda>r. (run_text r, run_bold r)) (drop (length p) ?p')
        = filter (\<lambda>(t, b). t \<noteq> [])
            (map (\<lambda>pc. case pc of
                    Literal t \<Rightarrow> (cr_to_lf t, None)
                  | Token k \<Rightarrow> (cr_to_lf (dict_get repl k),
                      if k \<in> {''{{base_amo}}'', ''{{cgst_c}}'', ''{{sgst_c}}'', ''{{tax_t}}'',
                               ''{{sub_total_words}}'', ''{{tax_to_words}}''}
                      then Some True else None))
              (pieces ?s))"
  proof
    assume a: "\<not> (\<exists>k \<in> {''{{sub_total_words}}'', ''{{tax_to_words}}'', ''{{sub_total}}''}.
            sublist k ?s) \<and> finditer ?s \<noteq> []"
    then have pb: "\<not> paragraph_should_be_bold ?s"
      by (simp only: paragraph_should_be_bold_iff simp_thms)
    define f where "f = (\<lambda>pc. case pc of
                    Literal t \<Rightarrow> (cr_to_lf t, None)
                  | Token k \<Rightarrow> (cr_to_lf (dict_get repl k),
                      if k \<in> {''{{base_amo}}'', ''{{cgst_c}}'', ''{{sgst_c}}'', ''{{tax_t}}'',
                               ''{{sub_total_words}}'', ''{{tax_to_words}}''}
                      then Some True else None))"
    have pt: "(run_text (run_of_segment (segment_of repl False pc) :: 'a run),
               run_bold (run_of_segment (segment_of repl False pc) :: 'a run)) = f pc"
      and ne: "fst (segment_of repl False pc) \<noteq> [] \<longleftrightarrow> fst (f pc) \<noteq> []" for pc
      by (cases pc; simp add: f_def run_of_segment_def BOLD_KEYS_def cr_to_lf_Nil_iff)+
    have "map (\<lambda>r :: 'a run. (run_text r, run_bold r))
            (map run_of_segment (filter (\<lambda>seg. fst seg \<noteq> []) (map (segment_of repl False) ps)))
          = filter (\<lambda>(t, b). t \<noteq> []) (map f ps)" for ps
    proof (induction ps)
      case Nil
      then show ?case by simp
    next
      case (Cons pc ps)
      show ?case
      proof (cases "fst (segment_of repl False pc) = []")
        case True
        with ne[of pc] have "fst (f pc) = []" by simp
        with True Cons.IH show ?thesis by (simp add: case_prod_beta)
      next
        case False
        with ne[of pc] have "fst (f pc) \<noteq> []" by simp
        with False Cons.IH pt[of pc] show ?thesis by (simp add: case_prod_beta)
      qed
    qed
    then show "map (\<lambda>r. (run_text r, run_bold r)) (drop (length p) ?p')
        = filter (\<lambda>(t, b). t \<noteq> [])
            (map (\<lambda>pc. case pc of
                    Literal t \<Rightarrow> (cr_to_lf t, None)
                  | Token k \<Rightarrow> (cr_to_lf (dict_get repl k),
                      if k \<in> {''{{base_amo}}'', ''{{cgst_c}}'', ''{{sgst_c}}'', ''{{tax_t}}'',
                               ''{{sub_total_words}}'', ''{{tax_to_words}}''}
                      then Some True else None))
              (pieces ?s))"
      using pb unfolding d f_def by (simp only: build_segments_pieces)
  qed
  from r one two show ?thesis by (intro exI[of _ ?p'] conjI)
qed

text \<open>
  A paragraph with a paragraph-bold token, whose five emitted runs are all bold, and one with
  a segment-bold token only, where the replacement of \<open>{{base_amo}}\<close> alone is bold.
\<close>

theorem bold_policy_witness:
  "list_all xml_compatible (spec_substitute
      [''{{sub_total_words}}'' \<mapsto> ''One Thousand And Twenty Rupees Only'']
      (full_text_of
        [\<lparr>run_text = ''In words: {{sub_total_words}} ({{date}})'', run_bold = None,
          run_other = None :: nat option\<rparr>]))
   \<and> (\<exists>k \<in> {''{{sub_total_words}}'', ''{{tax_to_words}}'', ''{{sub_total}}''}.
      sublist k (full_text_of
        [\<lparr>run_text = ''In words: {{sub_total_words}} ({{date}})'', run_bold = None,
          run_other = None :: nat option\<rparr>]))
   \<and> (\<exists>p'. replace_placeholders_in_paragraph
          [\<lparr>run_text = ''In words: {{sub_total_words}} ({{date}})'', run_bold = None,
            run_other = None :: nat option\<rparr>]
          [''{{sub_total_words}}'' \<mapsto> ''One Thousand And Twenty Rupees Only''] = Returns p'
        \<and> list_all (\<lambda>r. run_bold r = Some True) (drop 1 p')
        \<and> length (drop 1 p') = 5)
   \<and> list_all xml_compatible (spec_substitute
      [''{{base_amo}}'' \<mapsto> ''864.41'', ''{{tax_to}}'' \<mapsto> ''155.59'']
      (full_text_of
        [\<lparr>run_text = ''Base {{base_amo}} tax {{tax_to}}'', run_bold = Some True,
          run_other = None :: nat option\<rparr>]))
   \<and> \<not> (\<exists>k \<in> {''{{sub_total_words}}'', ''{{tax_to_words}}'', ''{{sub_total}}''}.
      sublist k (full_text_of
        [\<lparr>run_text = ''Base {{base_amo}} tax {{tax_to}}'', run_bold = Some True,
          run_other = None :: nat option\<rparr>]))
   \<and> (\<exists>p'. replace_placeholders_in_paragraph
          [\<lparr>run_text = ''Base {{base_amo}} tax {{tax_to}}'', run_bold = Some True,
            run_other = None :: nat option\<rparr>]
          [''{{base_amo}}'' \<mapsto> ''864.41'', ''{{tax_to}}'' \<mapsto> ''155.59''] = Returns p'
        \<and> map (\<lambda>r. (run_text r, run_bold r)) (drop 1 p')
          = [(''Base '', None), (''864.41'', Some True), ('' tax '', None), (''155.59'', None)])"
proof -
  let ?p1 = "[\<lparr>run_text = ''In words: {{sub_total_words}} ({{date}})'', run_bold = None,
                run_other = None :: nat option\<rparr>]"
  let ?m1 = "[''{{sub_total_words}}'' \<mapsto> ''One Thousand And Twenty Rupees Only'']"
  let ?p2 = "[\<lparr>run_text = ''Base {{base_amo}} tax {{tax_to}}'', run_bold = Some True,
                run_other = None :: nat option\<rparr>]"
  let ?m2 = "[''{{base_amo}}'' \<mapsto> ''864.41'', ''{{tax_to}}'' \<mapsto> ''155.59'']"
  let ?K = "{''{{sub_total_words}}'', ''{{tax_to_words}}'', ''{{sub_total}}''}"
  let ?F = "\<lambda>m pc. case pc of
                    Literal t \<Rightarrow> (cr_to_lf t, None)
                  | Token k \<Rightarrow> (cr_to_lf (dict_get m k),
                      if k \<in> {''{{base_amo}}'', ''{{cgst_c}}'', ''{{sgst_c}}'', ''{{tax_t}}'',
                               ''{{sub_total_words}}'', ''{{tax_to_words}}''}
                      then Some True else None)"
  have c1: "list_all xml_compatible (spec_substitute ?m1 (full_text_of ?p1))" by code_simp
  have c2: "list_all xml_compatible (spec_substitute ?m2 (full_text_of ?p2))" by code_simp
  have h1: "\<exists>k \<in> ?K. sublist k (full_text_of ?p1)" by code_simp
  have n2: "\<not> (\<exists>k \<in> ?K. sublist k (full_text_of ?p2))" by code_simp
  have f2: "finditer (full_text_of ?p2) \<noteq> []" by code_simp
  have e1: "replace_placeholders_in_paragraph ?p1 ?m1 = Returns
      [\<lparr>run_text = [], run_bold = None, run_other = None\<rparr>,
       \<lparr>run_text = ''In words: '', run_bold = Some True, run_other = None\<rparr>,
       \<lparr>run_text = ''One Thousand And Twenty Rupees Only'', run_bold = Some True,
        run_other = None\<rparr>,
       \<lparr>run_text = '' ('', run_bold = Some True, run_other = None\<rparr>,
       \<lparr>run_text = ''{{date}}'', run_bold = Some True, run_other = None\<rparr>,
       \<lparr>run_text = '')'', run_bold = Some True, run_other = None\<rparr>]"
    by code_simp
  have rhs: "filter (\<lambda>(t, b). t \<noteq> []) (map (?F ?m2) (pieces (full_text_of ?p2)))
        = [(''Base '', None), (''864.41'', Some True), ('' tax '', None), (''155.59'', None)]"
    by code_simp
  have len1: "length ?p1 = 1" and len2: "length ?p2 = 1" by simp_all
  from bold_policy[OF c1]
  obtain p1' where b1: "replace_placeholders_in_paragraph ?p1 ?m1 = Returns p1'
    \<and> ((\<exists>k \<in> ?K. sublist k (full_text_of ?p1)) \<longrightarrow>
        finditer (full_text_of ?p1) \<noteq> [] \<and>
        (\<forall>r \<in> set (drop (length ?p1) p1'). run_bold r = Some True))
    \<and> (\<not> (\<exists>k \<in> ?K. sublist k (full_text_of ?p1)) \<and> finditer (full_text_of ?p1) \<noteq> [] \<longrightarrow>
        map (\<lambda>r. (run_text r, run_bold r)) (drop (length ?p1) p1')
        = filter (\<lambda>(t, b). t \<noteq> []) (map (?F ?m1) (pieces (full_text_of ?p1))))" ..
  have r1: "replace_placeholders_in_paragraph ?p1 ?m1 = Returns p1'" using b1 by (rule conjunct1)
  have a1: "list_all (\<lambda>r. run_bold r = Some True) (drop 1 p1')"
    using b1[THEN conjunct2, THEN conjunct1, THEN mp, OF h1, THEN conjunct2]
    unfolding len1 list_all_iff .
  have "Returns p1' = Returns
      [\<lparr>run_text = [], run_bold = None, run_other = None\<rparr>,
       \<lparr>run_text = ''In words: '', run_bold = Some True, run_other = None\<rparr>,
       \<lparr>run_text = ''One Thousand And Twenty Rupees Only'', run_bold = Some True,
        run_other = None\<rparr>,
       \<lparr>run_text = '' ('', run_bold = Some True, run_other = None\<rparr>,
       \<lparr>run_text = ''{{date}}'', run_bold = Some True, run_other = None\<rparr>,
       \<lparr>run_text = '')'', run_bold = Some True, run_other = None\<rparr>]"
    using r1 e1 by (rule trans[OF sym])
  then have l1: "length (drop 1 p1') = 5" by simp
  have x1: "\<exists>p'. replace_placeholders_in_paragraph ?p1 ?m1 = Returns p'
        \<and> list_all (\<lambda>r. run_bold r = Some True) (drop 1 p') \<and> length (drop 1 p') = 5"
    by (rule exI[of _ p1'], intro conjI) (rule r1 a1 l1)+
  from bold_policy[OF c2]
  obtain p2' where b2: "replace_placeholders_in_paragraph ?p2 ?m2 = Returns p2'
    \<and> ((\<exists>k \<in> ?K. sublist k (full_text_of ?p2)) \<longrightarrow>
        finditer (full_text_of ?p2) \<noteq> [] \<and>
        (\<forall>r \<in> set (drop (length ?p2) p2'). run_bold r = Some True))
    \<and> (\<not> (\<exists>k \<in> ?K. sublist k (full_text_of ?p2)) \<and> finditer (full_text_of ?p2) \<noteq> [] \<longrightarrow>
        map (\<lambda>r. (run_text r, run_bold r)) (drop (length ?p2) p2')
        = filter (\<lambda>(t, b). t \<noteq> []) (map (?F ?m2) (pieces (full_text_of ?p2))))" ..
  have r2: "replace_placeholders_in_paragraph ?p2 ?m2 = Returns p2'" using b2 by (rule conjunct1)
  have a2: "map (\<lambda>r. (run_text r, run_bold r)) (drop 1 p2')
        = [(''Base '', None), (''864.41'', Some True), ('' tax '', None), (''155.59'', None)]"
    using b2[THEN conjunct2, THEN conjunct2, THEN mp, OF conjI[OF n2 f2]]
    unfolding rhs len2 .
  have x2: "\<exists>p'. replace_placeholders_in_paragraph ?p2 ?m2 = Returns p'
        \<and> map (\<lambda>r. (run_text r, run_bold r)) (drop 1 p')
          = [(''Base '', None), (''864.41'', Some True), ('' tax '', None), (''155.59'', None)]"
    by (rule exI[of _ p2'], intro conjI) (rule r2 a2)+
  show ?thesis
    by (intro conjI) (rule c1 h1 x1 c2 n2 x2)+
qed

text \<open>
  Claim C2 as stated fails where \<open>add_run\<close> raises: the paragraph holds a paragraph-bold
  token, the value of \<open>{{payment_type}}\<close> is the control character 7, and the run that the
  failed call leaves behind has no bold flag.
\<close>

theorem failed_run_not_bold_counterexample:
  "(\<exists>k \<in> {''{{sub_total_words}}'', ''{{tax_to_words}}'', ''{{sub_total}}''}.
      sublist k (full_text_of
        [\<lparr>run_text = ''Total {{sub_total}} by {{payment_type}}'', run_bold = None,
          run_other = None :: nat option\<rparr>]))
   \<and> replace_placeholders_in_paragraph
        [\<lparr>run_text = ''Total {{sub_total}} by {{payment_type}}'', run_bold = None,
          run_other = None :: nat option\<rparr>]
        [''{{sub_total}}'' \<mapsto> ''1020.00'', ''{{payment_type}}'' \<mapsto> [CHR 0x07]]
      = ValueError
          [\<lparr>run_text = [], run_bold = None, run_other = None\<rparr>,
           \<lparr>run_text = ''Total '', run_bold = Some True, run_other = None\<rparr>,
           \<lparr>run_text = ''1020.00'', run_bold = Some True, run_other = None\<rparr>,
           \<lparr>run_text = '' by '', run_bold = Some True, run_other = None\<rparr>,
           \<lparr>run_text = [], run_bold = None, run_other = None\<rparr>]"
  by code_simp

text \<open>
  Claim C4, as amended.  When at least one placeholder match is found and the substituted
  text holds no character that the XML library refuses, the function returns, having emptied
  the text of every existing run and appended one new run per non-empty segment, in order;
  a new run has its bold flag set to true when its segment is bold, and has no bold flag at
  all (it inherits) when its segment is not bold; it carries no other formatting, and its
  text is the segment's, with a line feed for every carriage return.
\<close>

theorem replace_rebuilds_runs:
  assumes "finditer (full_text_of p) \<noteq> []"
    and "list_all xml_compatible (spec_substitute repl (full_text_of p))"
  shows "replace_placeholders_in_paragraph p repl =
           Returns (map (\<lambda>r. r\<lparr>run_text := []\<rparr>) p @
             map (\<lambda>(t, b). \<lparr>run_text = cr_to_lf t, run_bold = (if b then Some True else None),
                            run_other = None\<rparr>)
               (filter (\<lambda>(t, b). t \<noteq> []) (build_segments repl (full_text_of p))))"
proof -
  have a: "run_of_segment = (\<lambda>(t, b). \<lparr>run_text = cr_to_lf t,
              run_bold = (if b then Some True else None), run_other = None :: 'a option\<rparr>)"
    by (rule ext) (simp add: run_of_segment_def split: prod.split)
  have b: "(\<lambda>seg :: string \<times> bool. fst seg \<noteq> []) = (\<lambda>(t, b). t \<noteq> [])"
    by (rule ext) (simp split: prod.split)
  show ?thesis using replace_emitted[OF assms, unfolded a b] .
qed

text \<open>
  A token split over two runs, whose value holds a carriage return, and one token that the
  map does not know.
\<close>

theorem replace_rebuilds_runs_witness:
  "finditer (full_text_of
      [\<lparr>run_text = ''Amount {{base'', run_bold = Some False, run_other = Some (1::nat)\<rparr>,
       \<lparr>run_text = ''_amo}} on {{date}}.'', run_bold = None, run_other = None\<rparr>]) \<noteq> []
   \<and> list_all xml_compatible (spec_substitute
      [''{{base_amo}}'' \<mapsto> ''864.41'' @ [CHR 0x0D] @ ''INR'']
      (full_text_of
        [\<lparr>run_text = ''Amount {{base'', run_bold = Some False, run_other = Some (1::nat)\<rparr>,
         \<lparr>run_text = ''_amo}} on {{date}}.'', run_bold = None, run_other = None\<rparr>]))
   \<and> replace_placeholders_in_paragraph
      [\<lparr>run_text = ''Amount {{base'', run_bold = Some False, run_other = Some (1::nat)\<rparr>,
       \<lparr>run_text = ''_amo}} on {{date}}.'', run_bold = None, run_other = None\<rparr>]
      [''{{base_amo}}'' \<mapsto> ''864.41'' @ [CHR 0x0D] @ ''INR'']
     = Returns
       [\<lparr>run_text = [], run_bold = Some False, run_other = Some 1\<rparr>,
        \<lparr>run_text = [], run_bold = None, run_other = None\<rparr>,
        \<lparr>run_text = ''Amount '', run_bold = None, run_other = None\<rparr>,
        \<lparr>run_text = ''864.41'' @ [CHR 0x0A] @ ''INR'', run_bold = Some True, run_other = None\<rparr>,
        \<lparr>run_text = '' on '', run_bold = None, run_other = None\<rparr>,
        \<lparr>run_text = ''{{date}}'', run_bold = None, run_other = None\<rparr>,
        \<lparr>run_text = ''.'', run_bold = None, run_other = None\<rparr>]"
proof -
  let ?p = "[\<lparr>run_text = ''Amount {{base'', run_bold = Some False, run_other = Some (1::nat)\<rparr>,
             \<lparr>run_text = ''_amo}} on {{date}}.'', run_bold = None, run_other = None\<rparr>]"
  let ?m = "[''{{base_amo}}'' \<mapsto> ''864.41'' @ [CHR 0x0D] @ ''INR'']"
  have f: "finditer (full_text_of ?p) \<noteq> []" by code_simp
  have c: "list_all xml_compatible (spec_substitute ?m (full_text_of ?p))" by code_simp
  have new: "map (\<lambda>(t, b). \<lparr>run_text = cr_to_lf t, run_bold = (if b then Some True else None),
                            run_other = None :: nat option\<rparr>)
               (filter (\<lambda>(t, b). t \<noteq> []) (build_segments ?m (full_text_of ?p)))
      = [\<lparr>run_text = ''Amount '', run_bold = None, run_other = None\<rparr>,
        \<lparr>run_text = ''864.41'' @ [CHR 0x0A] @ ''INR'', run_bold = Some True, run_other = None\<rparr>,
        \<lparr>run_text = '' on '', run_bold = None, run_other = None\<rparr>,
        \<lparr>run_text = ''{{date}}'', run_bold = None, run_other = None\<rparr>,
        \<lparr>run_text = ''.'', run_bold = None, run_other = None\<rparr>]"
    by code_simp
  have r: "replace_placeholders_in_paragraph ?p ?m
     = Returns
       [\<lparr>run_text = [], run_bold = Some False, run_other = Some 1\<rparr>,
        \<lparr>run_text = [], run_bold = None, run_other = None\<rparr>,
        \<lparr>run_text = ''Amount '', run_bold = None, run_other = None\<rparr>,
        \<lparr>run_text = ''864.41'' @ [CHR 0x0A] @ ''INR'', run_bold = Some True, run_other = None\<rparr>,
        \<lparr>run_text = '' on '', run_bold = None, run_other = None\<rparr>,
        \<lparr>run_text = ''{{date}}'', run_bold = None, run_other = None\<rparr>,
        \<lparr>run_text = ''.'', run_bold = None, run_other = None\<rparr>]"
    unfolding replace_rebuilds_runs[OF f c] new by simp
  show ?thesis by (intro conjI) (rule f c r)+
qed

text \<open>
  Claim C4 as stated fails.  Both segments of the first paragraph are computed as not bold,
  and the two new runs have no bold flag, where the claim has them set explicitly to false.
  In the second paragraph the value of \<open>{{hsn}}\<close> is the control character 11: \<open>add_run\<close>
  raises on it, the third non-empty segment gets no run, and the second gets an empty one.
\<close>

theorem explicit_bold_flag_counterexample:
  "build_segments [''{{date}}'' \<mapsto> ''01/02/2025''] ''Date: {{date}}''
     = [(''Date: '', False), (''01/02/2025'', False)]
   \<and> replace_placeholders_in_paragraph
        [\<lparr>run_text = ''Date: {{date}}'', run_bold = Some True, run_other = None :: nat option\<rparr>]
        [''{{date}}'' \<mapsto> ''01/02/2025'']
      = Returns
          [\<lparr>run_text = [], run_bold = Some True, run_other = None\<rparr>,
           \<lparr>run_text = ''Date: '', run_bold = None, run_other = None\<rparr>,
           \<lparr>run_text = ''01/02/2025'', run_bold = None, run_other = None\<rparr>]
   \<and> build_segments [''{{hsn}}'' \<mapsto> [CHR 0x0B]] ''Code {{hsn}} end''
     = [(''Code '', False), ([CHR 0x0B], False), ('' end'', False)]
   \<and> replace_placeholders_in_paragraph
        [\<lparr>run_text = ''Code {{hsn}} end'', run_bold = None, run_other = None :: nat option\<rparr>]
        [''{{hsn}}'' \<mapsto> [CHR 0x0B]]
      = ValueError
          [\<lparr>run_text = [], run_bold = None, run_other = None\<rparr>,
           \<lparr>run_text = ''Code '', run_bold = None, run_other = None\<rparr>,
           \<lparr>run_text = [], run_bold = None, run_other = None\<rparr>]"
  by code_simp

text \<open>
  Claim C10, as amended.  When at least one placeholder match is found and the substituted
  text holds no character that the XML library refuses, the function returns; the original
  runs stay in place with their text set to the empty string, and the new runs come after
  them, none with an empty text: every literal piece gives one run, every token gives one
  run with its replacement, or no run at all when the replacement is the empty string.  The
  texts are read back, with a line feed for every carriage return.
\<close>

theorem replace_keeps_cleared_runs:
  assumes "finditer (full_text_of p) \<noteq> []"
    and "list_all xml_compatible (spec_substitute repl (full_text_of p))"
  shows "\<exists>p'. replace_placeholders_in_paragraph p repl = Returns p'
         \<and> take (length p) p' = map (\<lambda>r. r\<lparr>run_text := []\<rparr>) p
         \<and> (\<forall>r \<in> set (drop (length p) p'). run_text r \<noteq> [])
         \<and> map run_text (drop (length p) p')
           = concat (map (\<lambda>pc. case pc of
                            Literal t \<Rightarrow> [cr_to_lf t]
                          | Token k \<Rightarrow> (if dict_get repl k = [] then []
                                        else [cr_to_lf (dict_get repl k)]))
                      (pieces (full_text_of p)))"
proof -
  let ?s = "full_text_of p"
  let ?new = "map run_of_segment (filter (\<lambda>seg. fst seg \<noteq> []) (build_segments repl ?s))"
  let ?p' = "map (\<lambda>r. r\<lparr>run_text := []\<rparr>) p @ ?new"
  have r: "replace_placeholders_in_paragraph p repl = Returns ?p'"
    using assms by (rule replace_emitted)
  have t: "take (length p) ?p' = map (\<lambda>r. r\<lparr>run_text := []\<rparr>) p" by simp
  have d: "drop (length p) ?p' = ?new" by simp
  have n: "\<forall>r \<in> set (drop (length p) ?p'). run_text r \<noteq> []"
    unfolding d by (auto simp: run_of_segment_def cr_to_lf_Nil_iff)
  have "map run_text (map run_of_segment (filter (\<lambda>seg. fst seg \<noteq> [])
          (map (segment_of repl pb) ps)))
        = concat (map (\<lambda>pc. case pc of
                            Literal t \<Rightarrow> [cr_to_lf t]
                          | Token k \<Rightarrow> (if dict_get repl k = [] then []
                                        else [cr_to_lf (dict_get repl k)])) ps)"
    if "Literal [] \<notin> set ps" for pb ps
    using that
  proof (induction ps)
    case Nil
    then show ?case by simp
  next
    case (Cons pc ps)
    then show ?case by (cases pc) (auto simp: run_of_segment_def)
  qed
  from this[OF pieces_literal_nonempty]
  have m: "map run_text (drop (length p) ?p')
           = concat (map (\<lambda>pc. case pc of
                            Literal t \<Rightarrow> [cr_to_lf t]
                          | Token k \<Rightarrow> (if dict_get repl k = [] then []
                                        else [cr_to_lf (dict_get repl k)]))
                      (pieces ?s))"
    unfolding d by (simp only: build_segments_pieces)
  from r t n m show ?thesis by (intro exI[of _ ?p'] conjI)
qed

text \<open>Two of the three tokens are mapped to the empty string and leave no run.\<close>

theorem replace_keeps_cleared_runs_witness:
  "finditer (full_text_of
      [\<lparr>run_text = ''HSN {{hsn}}'', run_bold = Some True, run_other = Some (7::nat)\<rparr>,
       \<lparr>run_text = ''{{hsn_n}} paid by {{payment_type}}'', run_bold = None, run_other = None\<rparr>]) \<noteq> []
   \<and> list_all xml_compatible (spec_substitute
      [''{{hsn}}'' \<mapsto> ''9954'', ''{{hsn_n}}'' \<mapsto> [], ''{{payment_type}}'' \<mapsto> []]
      (full_text_of
        [\<lparr>run_text = ''HSN {{hsn}}'', run_bold = Some True, run_other = Some (7::nat)\<rparr>,
         \<lparr>run_text = ''{{hsn_n}} paid by {{payment_type}}'', run_bold = None,
          run_other = None\<rparr>]))
   \<and> (\<exists>p'. replace_placeholders_in_paragraph
      [\<lparr>run_text = ''HSN {{hsn}}'', run_bold = Some True, run_other = Some (7::nat)\<rparr>,
       \<lparr>run_text = ''{{hsn_n}} paid by {{payment_type}}'', run_bold = None, run_other = None\<rparr>]
      [''{{hsn}}'' \<mapsto> ''9954'', ''{{hsn_n}}'' \<mapsto> [], ''{{payment_type}}'' \<mapsto> []] = Returns p'
      \<and> take 2 p' = [\<lparr>run_text = [], run_bold = Some True, run_other = Some 7\<rparr>,
                     \<lparr>run_text = [], run_bold = None, run_other = None\<rparr>]
      \<and> map run_text (drop 2 p') = [''HSN '', ''9954'', '' paid by ''])"
proof -
  let ?p = "[\<lparr>run_text = ''HSN {{hsn}}'', run_bold = Some True, run_other = Some (7::nat)\<rparr>,
       \<lparr>run_text = ''{{hsn_n}} paid by {{payment_type}}'', run_bold = None, run_other = None\<rparr>]"
  let ?m = "[''{{hsn}}'' \<mapsto> ''9954'', ''{{hsn_n}}'' \<mapsto> [], ''{{payment_type}}'' \<mapsto> []]"
  let ?G = "\<lambda>pc. case pc of
                            Literal t \<Rightarrow> [cr_to_lf t]
                          | Token k \<Rightarrow> (if dict_get ?m k = [] then []
                                        else [cr_to_lf (dict_get ?m k)])"
  have f: "finditer (full_text_of ?p) \<noteq> []" by code_simp
  have c: "list_all xml_compatible (spec_substitute ?m (full_text_of ?p))" by code_simp
  have len: "length ?p = 2" by simp
  have rhs: "concat (map ?G (pieces (full_text_of ?p))) = [''HSN '', ''9954'', '' paid by '']"
    by code_simp
  have cl: "map (\<lambda>r. r\<lparr>run_text := []\<rparr>) ?p
              = [\<lparr>run_text = [], run_bold = Some True, run_other = Some 7\<rparr>,
                 \<lparr>run_text = [], run_bold = None, run_other = None\<rparr>]"
    by simp
  from replace_keeps_cleared_runs[OF f c]
  obtain p' where k: "replace_placeholders_in_paragraph ?p ?m = Returns p'
         \<and> take (length ?p) p' = map (\<lambda>r. r\<lparr>run_text := []\<rparr>) ?p
         \<and> (\<forall>r \<in> set (drop (length ?p) p'). run_text r \<noteq> [])
         \<and> map run_text (drop (length ?p) p') = concat (map ?G (pieces (full_text_of ?p)))" ..
  have r: "replace_placeholders_in_paragraph ?p ?m = Returns p'" using k by (rule conjunct1)
  have a: "take 2 p' = [\<lparr>run_text = [], run_bold = Some True, run_other = Some 7\<rparr>,
                        \<lparr>run_text = [], run_bold = None, run_other = None\<rparr>]"
    using k[THEN conjunct2, THEN conjunct1] unfolding len cl .
  have b: "map run_text (drop 2 p') = [''HSN '', ''9954'', '' paid by '']"
    using k[THEN conjunct2, THEN conjunct2, THEN conjunct2] unfolding len rhs .
  have x: "\<exists>p'. replace_placeholders_in_paragraph ?p ?m = Returns p'
      \<and> take 2 p' = [\<lparr>run_text = [], run_bold = Some True, run_other = Some 7\<rparr>,
                     \<lparr>run_text = [], run_bold = None, run_other = None\<rparr>]
      \<and> map run_text (drop 2 p') = [''HSN '', ''9954'', '' paid by '']"
    by (rule exI[of _ p'], intro conjI) (rule r a b)+
  show ?thesis by (intro conjI) (rule f c x)+
qed

text \<open>
  Claim C10 as stated fails where \<open>add_run\<close> raises: a match is found, the value of
  \<open>{{hsn}}\<close> is the control character 1, and the failed call leaves a new run with an empty
  text at the end of the paragraph.
\<close>

theorem empty_run_left_counterexample:
  "finditer (full_text_of
      [\<lparr>run_text = ''HSN {{hsn}}'', run_bold = None, run_other = None :: nat option\<rparr>]) \<noteq> []
   \<and> replace_placeholders_in_paragraph
      [\<lparr>run_text = ''HSN {{hsn}}'', run_bold = None, run_other = None :: nat option\<rparr>]
      [''{{hsn}}'' \<mapsto> [CHR 0x01]]
     = ValueError
         [\<lparr>run_text = [], run_bold = None, run_other = None\<rparr>,
          \<lparr>run_text = ''HSN '', run_bold = None, run_other = None\<rparr>,
          \<lparr>run_text = [], run_bold = None, run_other = None\<rparr>]"
  by code_simp

section \<open>Claims about the trimming\<close>

text \<open>
  Claim C6, as amended.  For every block, the function ends, and it leaves out exactly the
  paragraphs that are empty and after which every paragraph of the block is empty, where a
  paragraph is empty when neither its text nor any of its runs holds a character other than
  white space; a table that stands after such a paragraph does not protect it.  So the
  paragraphs that remain are the block's paragraphs without the empty ones at the end of
  the paragraph list, the removal stopping at the first paragraph from the end that is not
  empty; the tables are the same; what remains is in the same order; the last remaining
  paragraph, if any, is not empty; and a block whose paragraphs are all empty loses all of
  them.
\<close>

theorem remove_trailing_empty_paragraphs_correct:
  "remove_trailing_empty_paragraphs_from_block blk = without_trailing_empty blk
   \<and> paragraphs (remove_trailing_empty_paragraphs_from_block blk)
     = rev (dropWhile is_paragraph_empty (rev (paragraphs blk)))
   \<and> tables (remove_trailing_empty_paragraphs_from_block blk) = tables blk
   \<and> subseq (remove_trailing_empty_paragraphs_from_block blk) blk
   \<and> (paragraphs (remove_trailing_empty_paragraphs_from_block blk) \<noteq> [] \<longrightarrow>
        \<not> is_paragraph_empty (last (paragraphs (remove_trailing_empty_paragraphs_from_block blk))))
   \<and> ((\<forall>p \<in> set (paragraphs blk). is_paragraph_empty p) \<longrightarrow>
        paragraphs (remove_trailing_empty_paragraphs_from_block blk) = [])"
proof -
  let ?R = "remove_trailing_empty_paragraphs_from_block blk"
  have w: "?R = without_trailing_empty blk"
    by (simp only: remove_trailing_eq_trim without_trailing_empty_eq_trim)
  have p: "paragraphs ?R = rev (dropWhile is_paragraph_empty (rev (paragraphs blk)))"
    by (simp add: remove_trailing_eq_trim paragraphs_rev paragraphs_trim_leading)
  have t: "tables ?R = tables blk"
    by (simp add: remove_trailing_eq_trim tables_rev tables_trim_leading)
  have s: "subseq ?R blk"
    using subseq_rev_rev[OF suffix_trim_or[of "rev blk"]]
    by (simp add: remove_trailing_eq_trim)
  have l: "paragraphs ?R \<noteq> [] \<longrightarrow> \<not> is_paragraph_empty (last (paragraphs ?R))"
    unfolding p using hd_dropWhile[of is_paragraph_empty "rev (paragraphs blk)"]
    by (simp add: last_rev)
  have e: "(\<forall>p \<in> set (paragraphs blk). is_paragraph_empty p) \<longrightarrow> paragraphs ?R = []"
    unfolding p by simp
  from w p t s l e show ?thesis by (intro conjI)
qed

text \<open>
  A block with a table between its paragraphs, whose last two paragraphs are empty, and a
  block with empty paragraphs only.
\<close>

theorem remove_trailing_empty_paragraphs_correct_witness:
  "remove_trailing_empty_paragraphs_from_block
      [Para \<lparr>par_text = ''Total'',
             par_runs = [\<lparr>run_text = ''Total'', run_bold = None, run_other = None :: nat option\<rparr>]\<rparr>,
       Tbl (1::nat),
       Para \<lparr>par_text = [], par_runs = []\<rparr>,
       Para \<lparr>par_text = [CHR 0x20, CHR 0x09],
             par_runs = [\<lparr>run_text = [CHR 0x20, CHR 0x09], run_bold = None, run_other = None\<rparr>]\<rparr>]
     = [Para \<lparr>par_text = ''Total'',
              par_runs = [\<lparr>run_text = ''Total'', run_bold = None, run_other = None\<rparr>]\<rparr>,
        Tbl 1]
   \<and> list_all is_paragraph_empty
        (paragraphs [Para \<lparr>par_text = [], par_runs = []\<rparr>, Tbl (2::nat),
           Para \<lparr>par_text = [CHR 0x20],
                 par_runs = [\<lparr>run_text = [CHR 0x20], run_bold = Some True,
                              run_other = None :: nat option\<rparr>]\<rparr>])
   \<and> paragraphs (remove_trailing_empty_paragraphs_from_block
        [Para \<lparr>par_text = [], par_runs = []\<rparr>, Tbl (2::nat),
         Para \<lparr>par_text = [CHR 0x20],
               par_runs = [\<lparr>run_text = [CHR 0x20], run_bold = Some True,
                            run_other = None :: nat option\<rparr>]\<rparr>]) = []"
proof -
  let ?b1 = "[Para \<lparr>par_text = ''Total'',
             par_runs = [\<lparr>run_text = ''Total'', run_bold = None, run_other = None :: nat option\<rparr>]\<rparr>,
       Tbl (1::nat),
       Para \<lparr>par_text = [], par_runs = []\<rparr>,
       Para \<lparr>par_text = [CHR 0x20, CHR 0x09],
             par_runs = [\<lparr>run_text = [CHR 0x20, CHR 0x09], run_bold = None, run_other = None\<rparr>]\<rparr>]"
  let ?b2 = "[Para \<lparr>par_text = [], par_runs = []\<rparr>, Tbl (2::nat),
         Para \<lparr>par_text = [CHR 0x20],
               par_runs = [\<lparr>run_text = [CHR 0x20], run_bold = Some True,
                            run_other = None :: nat option\<rparr>]\<rparr>]"
  have rhs: "without_trailing_empty ?b1
     = [Para \<lparr>par_text = ''Total'',
              par_runs = [\<lparr>run_text = ''Total'', run_bold = None, run_other = None\<rparr>]\<rparr>,
        Tbl 1]"
    by code_simp
  have e2: "list_all is_paragraph_empty (paragraphs ?b2)" by code_simp
  then have e2': "\<forall>p \<in> set (paragraphs ?b2). is_paragraph_empty p"
    unfolding list_all_iff .
  note th1 = remove_trailing_empty_paragraphs_correct[of ?b1]
  note th2 = remove_trailing_empty_paragraphs_correct[of ?b2]
  have a: "remove_trailing_empty_paragraphs_from_block ?b1
     = [Para \<lparr>par_text = ''Total'',
              par_runs = [\<lparr>run_text = ''Total'', run_bold = None, run_other = None\<rparr>]\<rparr>,
        Tbl 1]"
    using th1[THEN conjunct1] unfolding rhs .
  have c: "paragraphs (remove_trailing_empty_paragraphs_from_block ?b2) = []"
    using th2[THEN conjunct2, THEN conjunct2, THEN conjunct2, THEN conjunct2, THEN conjunct2,
              THEN mp, OF e2'] .
  show ?thesis by (intro conjI) (rule a e2 c)+
qed

text \<open>
  Claim C6 as stated fails.  An empty paragraph that stands before a table, not at the end
  of the block, is removed, in the first block after a paragraph with text and in the second
  between two tables.  And a paragraph at the end of its block whose text comes from a
  hyperlink has no run with text, yet it is not empty for the function and stays.
\<close>

theorem paragraph_before_table_counterexample:
  "remove_trailing_empty_paragraphs_from_block
      [Para \<lparr>par_text = ''Total'',
             par_runs = [\<lparr>run_text = ''Total'', run_bold = None, run_other = None :: nat option\<rparr>]\<rparr>,
       Para \<lparr>par_text = [], par_runs = []\<rparr>,
       Tbl (1::nat)]
     = [Para \<lparr>par_text = ''Total'',
              par_runs = [\<lparr>run_text = ''Total'', run_bold = None, run_other = None\<rparr>]\<rparr>,
        Tbl 1]
   \<and> remove_trailing_empty_paragraphs_from_block
      [Tbl (1::nat), Para \<lparr>par_text = [], par_runs = [] :: nat run list\<rparr>, Tbl 2,
       Para \<lparr>par_text = [], par_runs = []\<rparr>]
     = [Tbl 1, Tbl 2]
   \<and> remove_trailing_empty_paragraphs_from_block
      [Para \<lparr>par_text = ''see link'', par_runs = [] :: nat run list\<rparr>]
     = ([Para \<lparr>par_text = ''see link'', par_runs = []\<rparr>] :: (nat, nat) block)"
  by code_simp

section \<open>Claims about the numbering\<close>

text \<open>
  Claim C7, as amended.  For every month string and every list of names in the output
  directory, \<open>get_next_suffix_for_month\<close> returns the text of \<open>mx + 1\<close>, where \<open>mx\<close> is the
  largest suffix found among the names that end in \<open>.pdf\<close>, or 0 when there is none; the
  suffix found in a name is the number after the leftmost token \<open>GB-<MMYY>-<digits>\<close> of its
  stem.  The text is made of decimal digits and denotes \<open>mx + 1\<close>; it is two characters long
  below 100 and has no leading zero from 100 on.  Names without a token, and names that do
  not end in \<open>.pdf\<close>, are ignored; when no name counts the result is \<open>01\<close>; for month \<open>0125\<close>
  over \<open>GB-0125-01.pdf\<close>, \<open>GB-0125-03.pdf\<close>, \<open>GB-0225-09.pdf\<close> it is \<open>04\<close>.
\<close>

theorem get_next_suffix_for_month_correct:
  "(\<exists>mx. get_next_suffix_for_month month names = format_02d (mx + 1)
      \<and> (\<forall>name \<in> set names. suffix ''.pdf'' name \<longrightarrow>
            (\<forall>v. suffix_found month name v \<longrightarrow> v \<le> mx))
      \<and> (mx = 0 \<or> (\<exists>name \<in> set names. suffix ''.pdf'' name \<and> suffix_found month name mx))
      \<and> py_int (format_02d (mx + 1)) = Some (mx + 1)
      \<and> list_all is_decimal (format_02d (mx + 1))
      \<and> (mx + 1 < 100 \<longrightarrow> length (format_02d (mx + 1)) = 2)
      \<and> (100 \<le> mx + 1 \<longrightarrow> format_02d (mx + 1) = decimal (mx + 1)
            \<and> hd (decimal (mx + 1)) \<noteq> CHR ''0''))
   \<and> ((\<forall>name \<in> set names. suffix ''.pdf'' name \<longrightarrow> (\<forall>v. \<not> suffix_found month name v))
        \<longrightarrow> get_next_suffix_for_month month names = ''01'')
   \<and> get_next_suffix_for_month ''0125''
        [''GB-0125-01.pdf'', ''GB-0125-03.pdf'', ''GB-0225-09.pdf''] = ''04''"
proof (intro conjI)
  let ?pat = "GB_prefix month"
  let ?mx = "foldl (scan_step ?pat) 0 (glob_pdf names)"
  note fs = foldl_scan_step[of 0 ?pat "glob_pdf names"]
  have r: "get_next_suffix_for_month month names = format_02d (?mx + 1)"
    by (simp add: get_next_suffix_for_month_def Let_def)
  have ub: "\<forall>name \<in> set names. suffix ''.pdf'' name \<longrightarrow>
              (\<forall>v. suffix_found month name v \<longrightarrow> v \<le> ?mx)"
    using fs by (simp add: glob_pdf_def found_value_iff)
  have at: "?mx = 0 \<or> (\<exists>name \<in> set names. suffix ''.pdf'' name \<and> suffix_found month name ?mx)"
    using fs by (auto simp: glob_pdf_def found_value_iff)
  from r ub at format_02d_props[of "?mx + 1"]
  show "\<exists>mx. get_next_suffix_for_month month names = format_02d (mx + 1)
      \<and> (\<forall>name \<in> set names. suffix ''.pdf'' name \<longrightarrow>
            (\<forall>v. suffix_found month name v \<longrightarrow> v \<le> mx))
      \<and> (mx = 0 \<or> (\<exists>name \<in> set names. suffix ''.pdf'' name \<and> suffix_found month name mx))
      \<and> py_int (format_02d (mx + 1)) = Some (mx + 1)
      \<and> list_all is_decimal (format_02d (mx + 1))
      \<and> (mx + 1 < 100 \<longrightarrow> length (format_02d (mx + 1)) = 2)
      \<and> (100 \<le> mx + 1 \<longrightarrow> format_02d (mx + 1) = decimal (mx + 1)
            \<and> hd (decimal (mx + 1)) \<noteq> CHR ''0'')"
    by (intro exI[of _ ?mx] conjI) (rule r ub at | simp)+
  have one: "format_02d 1 = ''01''" by code_simp
  show "(\<forall>name \<in> set names. suffix ''.pdf'' name \<longrightarrow> (\<forall>v. \<not> suffix_found month name v))
        \<longrightarrow> get_next_suffix_for_month month names = ''01''"
  proof
    assume "\<forall>name \<in> set names. suffix ''.pdf'' name \<longrightarrow> (\<forall>v. \<not> suffix_found month name v)"
    with at have "?mx = 0" by blast
    with r one show "get_next_suffix_for_month month names = ''01''" by simp
  qed
  show "get_next_suffix_for_month ''0125''
        [''GB-0125-01.pdf'', ''GB-0125-03.pdf'', ''GB-0225-09.pdf''] = ''04''"
    by code_simp
qed

text \<open>
  A directory whose largest suffix among the PDF files is 99: the result is three characters
  wide, and the file with the larger suffix that is not a PDF does not count.
\<close>

theorem get_next_suffix_for_month_correct_witness:
  "get_next_suffix_for_month ''0125''
      [''G_BUILDCON_Invoice_-_GB-0125-99.pdf'', ''GB-0125-103.docx'', ''GB-0225-09.pdf'',
       ''notes.txt''] = ''100''
   \<and> (\<exists>name \<in> set [''G_BUILDCON_Invoice_-_GB-0125-99.pdf'', ''GB-0125-103.docx'',
                       ''GB-0225-09.pdf'', ''notes.txt''].
         suffix ''.pdf'' name \<and> suffix_found ''0125'' name 99)"
proof -
  let ?names = "[''G_BUILDCON_Invoice_-_GB-0125-99.pdf'', ''GB-0125-103.docx'',
                 ''GB-0225-09.pdf'', ''notes.txt'']"
  have res: "get_next_suffix_for_month ''0125'' ?names = ''100''" by code_simp
  have v: "py_int ''100'' = Some 100" by code_simp
  from get_next_suffix_for_month_correct[of "''0125''" ?names, THEN conjunct1]
  obtain mx where h: "get_next_suffix_for_month ''0125'' ?names = format_02d (mx + 1)"
    and at: "mx = 0 \<or> (\<exists>name \<in> set ?names. suffix ''.pdf'' name \<and> suffix_found ''0125'' name mx)"
    and pi: "py_int (format_02d (mx + 1)) = Some (mx + 1)"
    by blast
  from h res have "format_02d (mx + 1) = ''100''" by simp
  with pi v have mx: "mx = 99" by simp
  with at have "\<exists>name \<in> set ?names. suffix ''.pdf'' name \<and> suffix_found ''0125'' name 99"
    by simp
  with res show ?thesis by (intro conjI)
qed

text \<open>
  Claim C7 as stated fails: a name that holds the token \<open>GB-0125-07\<close> but does not end in
  \<open>.pdf\<close> is not read, and the result is \<open>01\<close>, not \<open>08\<close>; in a name with two tokens only the
  leftmost is read, and the result is \<open>02\<close>, not \<open>06\<close>.
\<close>

theorem pdf_only_first_token_counterexample:
  "token_at ''0125'' ''GB-0125-07.docx'' 0 ''07'' \<and> py_int ''07'' = Some 7
   \<and> get_next_suffix_for_month ''0125'' [''GB-0125-07.docx''] = ''01''
   \<and> token_at ''0125'' ''GB-0125-01_GB-0125-05.pdf'' 11 ''05'' \<and> py_int ''05'' = Some 5
   \<and> get_next_suffix_for_month ''0125'' [''GB-0125-01_GB-0125-05.pdf''] = ''02''"
  unfolding token_at_def occurs_at_exec by code_simp

section \<open>Claims about the request validation\<close>

text \<open>
  Claim C9 does not hold for a malformed date.  With an amount that converts, a numeric
  suffix and a date that \<open>strptime\<close> refuses, \<open>generate_invoice\<close> does not return a client
  error: the exception leaves the view.  The view \<open>next_suffix\<close> answers the same date with
  status 400.
\<close>

theorem generate_invoice_malformed_date_raises:
  assumes "float_of y = Some v" and "ceil_markup v = Some n" and "isdigit (strip sfx)"
    and "d \<noteq> []" and "strptime d = None"
  shows "generate_invoice float_of ceil_markup strptime today amounts_in_words
           \<lparr>y_value = Some y, date = Some d, invoice_suffix = Some sfx,
            payment_type = pt, hsn_code = hsn\<rparr> = Raised ''ValueError''
         \<and> next_suffix strptime strftime_mmyy names (Some d) = (400, ''invalid date'')"
  using assms by (simp add: generate_invoice_def next_suffix_def)

text \<open>A request with the amount 1000, the suffix 01 and the date 2025-02-30.\<close>

theorem generate_invoice_malformed_date_raises_witness:
  "generate_invoice (\<lambda>s. if s = ''1000'' then Some (1000 :: int) else None)
       (\<lambda>y. Some ((y * 102 + 99) div 100)) (\<lambda>s. None :: unit option) ''2026-01-01''
       (\<lambda>n. Some ())
           \<lparr>y_value = Some ''1000'', date = Some ''2025-02-30'', invoice_suffix = Some '' 01 '',
            payment_type = None, hsn_code = None\<rparr> = (Raised ''ValueError'' :: (int, unit, unit) outcome)
   \<and> next_suffix (\<lambda>s. None :: unit option) (\<lambda>d. ''0225'') [] (Some ''2025-02-30'')
       = (400, ''invalid date'')"
proof -
  have a: "isdigit (strip '' 01 '')" by code_simp
  have b: "''2025-02-30'' \<noteq> []" by simp
  show ?thesis
    by (rule generate_invoice_malformed_date_raises[OF _ _ a b]) simp_all
qed

end
